theory Spec2Isabelle
  imports Complex_Main "HOL-Library.Multiset"
begin

section \<open>Python values shared by the strategies\<close>

text \<open>
  The exceptions the modelled code can raise.  A function that may raise returns
  \<open>error + 'a\<close>, with \<open>Inl\<close> carrying the exception.
\<close>

datatype error = ValueError | TypeError | IndexError | KeyError | ZeroDivisionError

text \<open>
  Python slices with non-negative bounds: \<open>xs[i:j]\<close> clamps both bounds to the length,
  and \<open>xs[i:j] = ys\<close> replaces that span (an empty span at \<open>i\<close> when \<open>j < i\<close>).
\<close>

definition py_slice :: "'a list \<Rightarrow> nat \<Rightarrow> nat \<Rightarrow> 'a list" where
  "py_slice xs i j = take (j - i) (drop i xs)"

definition py_slice_assign :: "'a list \<Rightarrow> nat \<Rightarrow> nat \<Rightarrow> 'a list \<Rightarrow> 'a list" where
  "py_slice_assign xs i j ys = take i xs @ ys @ drop (max i j) xs"

section \<open>crossover.py: OrderedCrossover\<close>

text \<open>
  \<open>OrderedCrossover._create_child\<close>.  The child is a list of cells, \<open>None\<close> being a
  cell not yet written.  The cut points come from \<open>random.sample(range(gen_len), 2)\<close>
  and are natural numbers.  The \<open>for _ in range(gen_len)\<close> loop is \<open>ox_fill\<close>, counting the
  iterations left; \<open>r\<close> is \<open>p2_read_idx\<close>, \<open>w\<close> is \<open>child_write_idx\<close>.  The loop
  body reads \<open>parent2_gen[p2_read_idx]\<close> (IndexError when parent 2 is shorter), writes the
  gene unless it is in \<open>genes_in_child\<close>, advances the pointers, and breaks when the
  write pointer equals \<open>start\<close>.
\<close>

fun ox_fill ::
  "nat \<Rightarrow> nat \<Rightarrow> nat \<Rightarrow> 'a list \<Rightarrow> 'a option set \<Rightarrow> nat \<Rightarrow> nat \<Rightarrow> 'a option list
    \<Rightarrow> error + 'a option list" where
  "ox_fill 0 gen_len start p2 genes r w child = Inr child"
| "ox_fill (Suc it) gen_len start p2 genes r w child =
     (if length p2 \<le> r then Inl IndexError
      else
        let gene = p2 ! r;
            child' = (if Some gene \<notin> genes then child[w := Some gene] else child);
            w' = (if Some gene \<notin> genes then (w + 1) mod gen_len else w);
            r' = (r + 1) mod gen_len
        in if w' = start then Inr child'
           else ox_fill it gen_len start p2 genes r' w' child')"

definition create_child :: "'a list \<Rightarrow> 'a list \<Rightarrow> nat \<Rightarrow> nat \<Rightarrow> error + 'a option list" where
  "create_child parent1_gen parent2_gen start end' =
     (let gen_len = length parent1_gen;
          child_gen = replicate gen_len None;
          child_gen = py_slice_assign child_gen start (end' + 1)
                        (map Some (py_slice parent1_gen start (end' + 1)));
          genes_in_child = set (py_slice child_gen start (end' + 1))
      in if gen_len = 0 then Inl ZeroDivisionError
         else ox_fill gen_len gen_len start parent2_gen genes_in_child
                ((end' + 1) mod gen_len) ((end' + 1) mod gen_len) child_gen)"

text \<open>
  Auxiliary notions for the proofs about \<open>create_child\<close>, with \<open>a\<close> the exclusive end
  of the swath: \<open>ox_rest\<close> is parent 2 read circularly from \<open>a\<close> without the genes of the
  swath, and \<open>ox_partial\<close> is the child after \<open>j\<close> of those genes have been written.
\<close>

definition ox_rest :: "'a list \<Rightarrow> 'a list \<Rightarrow> nat \<Rightarrow> nat \<Rightarrow> 'a list" where
  "ox_rest p1 p2 s a = filter (\<lambda>g. g \<notin> set (py_slice p1 s a)) (rotate a p2)"

definition ox_partial :: "'a list \<Rightarrow> 'a list \<Rightarrow> nat \<Rightarrow> nat \<Rightarrow> nat \<Rightarrow> 'a option list" where
  "ox_partial p1 F s a j =
     map (\<lambda>p. if s \<le> p \<and> p < a then Some (p1 ! p)
              else if (p + length p1 - a) mod length p1 < j
                   then Some (F ! ((p + length p1 - a) mod length p1))
                   else None) [0..<length p1]"

section \<open>individual.py and survivor\_selection.py\<close>

text \<open>
  A candidate (\<open>Individual\<close>): genotype, optional fitness, age.  Fitness values are
  modelled as real numbers.
\<close>

record 'g individual =
  genotype :: 'g
  fitness :: "real option"
  age :: int

definition Individual :: "'g \<Rightarrow> 'g individual" where
  "Individual g = \<lparr>genotype = g, fitness = None, age = 0\<rparr>"

definition py_prefix :: "'a list \<Rightarrow> int \<Rightarrow> 'a list" where
  "py_prefix xs k = (if k < 0 then take (nat (int (length xs) + k)) xs else take (nat k) xs)"

definition fitness_key :: "'g individual \<Rightarrow> real" where
  "fitness_key ind = the (fitness ind)"

definition sort_desc :: "'g individual list \<Rightarrow> 'g individual list" where
  "sort_desc xs = rev (sort_key fitness_key (rev xs))"

definition py_sort_by_fitness_desc :: "'g individual list \<Rightarrow> error + 'g individual list" where
  "py_sort_by_fitness_desc xs =
     (if 2 \<le> length xs \<and> (\<exists>x \<in> set xs. fitness x = None) then Inl TypeError
      else Inr (sort_desc xs))"

definition PlusSelection_call ::
  "int \<Rightarrow> 'g individual list \<Rightarrow> 'g individual list \<Rightarrow> error + 'g individual list" where
  "PlusSelection_call population_size old_population offspring =
     (let combined_population = old_population @ offspring
      in case py_sort_by_fitness_desc combined_population of
           Inl e \<Rightarrow> Inl e
         | Inr sorted_population \<Rightarrow> Inr (py_prefix sorted_population population_size))"

definition CommaSelection_call ::
  "int \<Rightarrow> 'g individual list \<Rightarrow> 'g individual list
    \<Rightarrow> (error + 'g individual list) \<times> 'g individual list option" where
  "CommaSelection_call population_size old_population offspring =
     (if int (length offspring) < population_size then (Inl ValueError, Some offspring)
      else case py_sort_by_fitness_desc offspring of
             Inl e \<Rightarrow> (Inl e, None)
           | Inr sorted_offspring \<Rightarrow>
               (Inr (py_prefix sorted_offspring population_size), Some sorted_offspring))"

definition age_eligible :: "int \<Rightarrow> 'g individual list \<Rightarrow> 'g individual list" where
  "age_eligible max_age combined_population =
     filter (\<lambda>ind. age ind \<le> max_age) combined_population"

definition PlusAgeBasedSelection_call ::
  "int \<Rightarrow> int \<Rightarrow> 'g individual list \<Rightarrow> 'g individual list \<Rightarrow> error + 'g individual list" where
  "PlusAgeBasedSelection_call population_size max_age old_population offspring =
     (let combined_population = old_population @ offspring;
          eligible_population = age_eligible max_age combined_population
      in case py_sort_by_fitness_desc eligible_population of
           Inl e \<Rightarrow> Inl e
         | Inr sorted_population \<Rightarrow> Inr (py_prefix sorted_population population_size))"

definition evaluated :: "'g individual list \<Rightarrow> bool" where
  "evaluated xs = (\<forall>x \<in> set xs. fitness x \<noteq> None)"

definition fitness_descending :: "'g individual list \<Rightarrow> bool" where
  "fitness_descending xs = sorted_wrt (\<lambda>x y. fitness_key y \<le> fitness_key x) xs"

section \<open>Random draws and rates shared by the strategies\<close>

text \<open>
  A rate or probability is a constant or a function of the generation
  (\<open>fn(gen) -> float\<close>); \<open>resolve_rate\<close> is the conditional expression that opens every
  \<open>__call__\<close>.
\<close>

datatype rate = Fixed real | Scheduled "int \<Rightarrow> real"

definition resolve_rate :: "rate \<Rightarrow> int \<Rightarrow> real" where
  "resolve_rate schedule current_generation =
     (case schedule of Scheduled f \<Rightarrow> f current_generation | Fixed p \<Rightarrow> p)"

text \<open>
  \<open>random.sample(population, k)\<close> of the Python library: ValueError unless
  \<open>0 \<le> k \<le> len(population)\<close>, otherwise \<open>k\<close> elements at distinct positions.  The
  generator is a parameter: \<open>rnd i\<close> is its \<open>i\<close>-th raw draw, reduced modulo the number of
  elements still in the pool; the chosen element leaves the pool (the last element takes
  its slot), so no position is chosen twice.
\<close>

fun sample_pool :: "'a list \<Rightarrow> nat \<Rightarrow> (nat \<Rightarrow> nat) \<Rightarrow> nat \<Rightarrow> 'a list" where
  "sample_pool pool 0 rnd i = []"
| "sample_pool pool (Suc k) rnd i =
     (let j = rnd i mod length pool
      in pool ! j # sample_pool (butlast (pool[j := last pool])) k rnd (Suc i))"

definition random_sample :: "'a list \<Rightarrow> int \<Rightarrow> (nat \<Rightarrow> nat) \<Rightarrow> error + 'a list" where
  "random_sample population k rnd =
     (if k < 0 \<or> int (length population) < k then Inl ValueError
      else Inr (sample_pool population (nat k) rnd 0))"

section \<open>mutation.py\<close>

text \<open>
  Both mutations update genotype lists in place.  The store \<open>heap\<close> maps the address of a
  list object to its content, and \<open>offspring\<close> is the list of the genotype addresses of the
  individuals passed in (two entries may name the same list).  For the \<open>n\<close>-th individual,
  \<open>coin n\<close> is the value of \<open>random.random()\<close> and \<open>rnd n\<close> the generator behind
  \<open>random.sample(range(gen_len), 2)\<close>.  Genotypes are lists by their type, so the
  \<open>isinstance\<close> check cannot fail.  The call returns the store after the loop; the list
  of offspring itself is returned as it was passed.
\<close>

definition swap_genes :: "'a list \<Rightarrow> nat \<Rightarrow> nat \<Rightarrow> 'a list" where
  "swap_genes g idx1 idx2 =
     (let temp = g ! idx1;
          g = g[idx1 := g ! idx2]
      in g[idx2 := temp])"

definition invert_span :: "'a list \<Rightarrow> nat \<Rightarrow> nat \<Rightarrow> 'a list" where
  "invert_span g idx1 idx2 =
     (let start = min idx1 idx2;
          end' = max idx1 idx2;
          sub_list = rev (py_slice g start (end' + 1))
      in py_slice_assign g start (end' + 1) sub_list)"

fun SwapMutation_loop ::
  "real \<Rightarrow> (nat \<Rightarrow> real) \<Rightarrow> (nat \<Rightarrow> nat \<Rightarrow> nat) \<Rightarrow> nat \<Rightarrow> (nat \<Rightarrow> 'a list) \<Rightarrow> nat list
    \<Rightarrow> error + (nat \<Rightarrow> 'a list)" where
  "SwapMutation_loop prob coin rnd n heap [] = Inr heap"
| "SwapMutation_loop prob coin rnd n heap (ind # rest) =
     (if coin n < prob then
        (let gen_len = length (heap ind)
         in if gen_len < 2 then SwapMutation_loop prob coin rnd (Suc n) heap rest
            else case random_sample [0..<gen_len] 2 (rnd n) of
                   Inl e \<Rightarrow> Inl e
                 | Inr picks \<Rightarrow>
                     SwapMutation_loop prob coin rnd (Suc n)
                       (heap(ind := swap_genes (heap ind) (picks ! 0) (picks ! 1))) rest)
      else SwapMutation_loop prob coin rnd (Suc n) heap rest)"

definition SwapMutation_call ::
  "rate \<Rightarrow> int \<Rightarrow> (nat \<Rightarrow> real) \<Rightarrow> (nat \<Rightarrow> nat \<Rightarrow> nat) \<Rightarrow> (nat \<Rightarrow> 'a list) \<Rightarrow> nat list
    \<Rightarrow> error + (nat \<Rightarrow> 'a list)" where
  "SwapMutation_call prob_schedule current_generation coin rnd heap offspring =
     SwapMutation_loop (resolve_rate prob_schedule current_generation) coin rnd 0 heap offspring"

fun InversionMutation_loop ::
  "real \<Rightarrow> (nat \<Rightarrow> real) \<Rightarrow> (nat \<Rightarrow> nat \<Rightarrow> nat) \<Rightarrow> nat \<Rightarrow> (nat \<Rightarrow> 'a list) \<Rightarrow> nat list
    \<Rightarrow> error + (nat \<Rightarrow> 'a list)" where
  "InversionMutation_loop prob coin rnd n heap [] = Inr heap"
| "InversionMutation_loop prob coin rnd n heap (ind # rest) =
     (if coin n < prob then
        (let gen_len = length (heap ind)
         in if gen_len < 2 then InversionMutation_loop prob coin rnd (Suc n) heap rest
            else case random_sample [0..<gen_len] 2 (rnd n) of
                   Inl e \<Rightarrow> Inl e
                 | Inr picks \<Rightarrow>
                     InversionMutation_loop prob coin rnd (Suc n)
                       (heap(ind := invert_span (heap ind) (picks ! 0) (picks ! 1))) rest)
      else InversionMutation_loop prob coin rnd (Suc n) heap rest)"

definition InversionMutation_call ::
  "rate \<Rightarrow> int \<Rightarrow> (nat \<Rightarrow> real) \<Rightarrow> (nat \<Rightarrow> nat \<Rightarrow> nat) \<Rightarrow> (nat \<Rightarrow> 'a list) \<Rightarrow> nat list
    \<Rightarrow> error + (nat \<Rightarrow> 'a list)" where
  "InversionMutation_call prob_schedule current_generation coin rnd heap offspring =
     InversionMutation_loop (resolve_rate prob_schedule current_generation) coin rnd 0 heap
       offspring"

text \<open>The relation between two stores that the mutations maintain.\<close>

definition same_genes :: "(nat \<Rightarrow> 'a list) \<Rightarrow> (nat \<Rightarrow> 'a list) \<Rightarrow> bool" where
  "same_genes heap heap' =
     (\<forall>a. mset (heap' a) = mset (heap a) \<and> (length (heap a) < 2 \<longrightarrow> heap' a = heap a))"

section \<open>parent\_selection.py: TournamentSelection\<close>

text \<open>
  Python's \<open>max(xs, key=lambda ind: ind.fitness)\<close>: ValueError on an empty sequence, TypeError
  when two or more candidates are compared and one has no fitness, otherwise the first
  candidate of maximal fitness.
\<close>

definition py_max_by_fitness :: "'g individual list \<Rightarrow> error + 'g individual" where
  "py_max_by_fitness xs =
     (case xs of
        [] \<Rightarrow> Inl ValueError
      | x # rest \<Rightarrow>
          if rest \<noteq> [] \<and> (\<exists>y \<in> set xs. fitness y = None) then Inl TypeError
          else Inr (foldl (\<lambda>best y. if fitness_key best < fitness_key y then y else best) x rest))"

text \<open>
  The strategy object holds \<open>k\<close> only, so \<open>__init__\<close> returns \<open>k\<close> or raises.  In
  \<open>__call__\<close>, \<open>rnd t\<close> is the generator behind the \<open>t\<close>-th \<open>random.sample\<close>.
\<close>

definition TournamentSelection_init :: "int \<Rightarrow> error + int" where
  "TournamentSelection_init k = (if k \<le> 0 then Inl ValueError else Inr k)"

fun tournament_loop ::
  "int \<Rightarrow> (nat \<Rightarrow> nat \<Rightarrow> nat) \<Rightarrow> 'g individual list \<Rightarrow> nat \<Rightarrow> nat
    \<Rightarrow> error + 'g individual list" where
  "tournament_loop k rnd population t 0 = Inr []"
| "tournament_loop k rnd population t (Suc n) =
     (case random_sample population k (rnd t) of
        Inl e \<Rightarrow> Inl e
      | Inr contenders \<Rightarrow>
          (case py_max_by_fitness contenders of
             Inl e \<Rightarrow> Inl e
           | Inr winner \<Rightarrow>
               (case tournament_loop k rnd population (Suc t) n of
                  Inl e \<Rightarrow> Inl e
                | Inr parents \<Rightarrow> Inr (winner # parents))))"

definition TournamentSelection_call ::
  "int \<Rightarrow> (nat \<Rightarrow> nat \<Rightarrow> nat) \<Rightarrow> 'g individual list \<Rightarrow> error + 'g individual list" where
  "TournamentSelection_call k rnd population =
     (let pop_size = length population
      in if pop_size = 0 then Inr [] else tournament_loop k rnd population 0 pop_size)"

section \<open>crossover.py: CycleCrossover, and the two \<open>__call__\<close> methods\<close>

text \<open>
  The recombination block of \<open>CycleCrossover.__call__\<close> for one pair of genotypes.  The
  state holds the two children (cells, \<open>None\<close> for a cell not yet written) and
  \<open>visited_indices\<close>; \<open>assigned\<close> is a record kept for the proofs and read by no
  branch: the pairs (cycle number, position) in the order in which the positions are
  written.  \<open>cx_assign\<close> is the body of the \<open>while\<close> loop up to the two assignments,
  \<open>cx_cycle\<close> the \<open>while\<close> loop (a missing key of \<open>p2_value_to_index\<close> is a KeyError),
  \<open>cx_outer\<close> the \<open>for idx in range(gen_len)\<close> loop.  The dictionary comprehension keeps
  the last index of a repeated value, hence the reversed association list.
\<close>

record 'a cx_state =
  c1_gen :: "'a option list"
  c2_gen :: "'a option list"
  visited_indices :: "bool list"
  assigned :: "(nat \<times> nat) list"

definition cx_assign :: "'a list \<Rightarrow> 'a list \<Rightarrow> nat \<Rightarrow> nat \<Rightarrow> 'a cx_state \<Rightarrow> 'a cx_state" where
  "cx_assign p1 p2 cycle_num current_idx st =
     (let st = st\<lparr>visited_indices := (visited_indices st)[current_idx := True]\<rparr>;
          st = (if cycle_num mod 2 = 1
                then st\<lparr>c1_gen := (c1_gen st)[current_idx := Some (p1 ! current_idx)],
                        c2_gen := (c2_gen st)[current_idx := Some (p2 ! current_idx)]\<rparr>
                else st\<lparr>c1_gen := (c1_gen st)[current_idx := Some (p2 ! current_idx)],
                        c2_gen := (c2_gen st)[current_idx := Some (p1 ! current_idx)]\<rparr>)
      in st\<lparr>assigned := assigned st @ [(cycle_num, current_idx)]\<rparr>)"

definition unvisited :: "'a cx_state \<Rightarrow> nat" where
  "unvisited st = length (filter (\<lambda>b. \<not> b) (visited_indices st))"

function cx_cycle ::
  "'a list \<Rightarrow> 'a list \<Rightarrow> ('a \<rightharpoonup> nat) \<Rightarrow> nat \<Rightarrow> nat \<Rightarrow> 'a cx_state \<Rightarrow> error + 'a cx_state" where
  "cx_cycle p1 p2 p2_value_to_index cycle_num current_idx st =
     (if length (visited_indices st) \<le> current_idx then Inl IndexError
      else if visited_indices st ! current_idx then Inr st
      else if length p1 \<le> current_idx \<or> length p2 \<le> current_idx then Inl IndexError
      else
        let st = cx_assign p1 p2 cycle_num current_idx st;
            value_in_p1 = p1 ! current_idx
        in case p2_value_to_index value_in_p1 of
             None \<Rightarrow> Inl KeyError
           | Some next_idx \<Rightarrow> cx_cycle p1 p2 p2_value_to_index cycle_num next_idx st)"
  by pat_completeness auto
termination
proof (relation "measure (\<lambda>(p1, p2, m, cycle_num, current_idx, st). unvisited st)")
  show "wf (measure (\<lambda>(p1, p2, m, cycle_num, current_idx, st). unvisited (st :: 'a cx_state)))"
    by simp
next
  fix p1 p2 :: "'a list" and m :: "'a \<rightharpoonup> nat" and cycle_num current_idx :: nat
    and st st' :: "'a cx_state" and value_in_p1 :: 'a and next_idx :: nat
  assume a: "\<not> length (visited_indices st) \<le> current_idx"
    "\<not> visited_indices st ! current_idx"
    and st': "st' = cx_assign p1 p2 cycle_num current_idx st"
  have dec: "i < length v \<Longrightarrow> \<not> v ! i \<Longrightarrow>
      length (filter (\<lambda>b. \<not> b) (v[i := True])) < length (filter (\<lambda>b. \<not> b) v)"
    for v :: "bool list" and i
  proof (induction v arbitrary: i)
    case Nil
    then show ?case by simp
  next
    case (Cons b v)
    then show ?case by (cases i) (auto simp: Suc_le_eq)
  qed
  have "visited_indices st' = (visited_indices st)[current_idx := True]"
    unfolding st' by (simp add: cx_assign_def Let_def)
  then have "unvisited st' < unvisited st"
    using dec [of current_idx "visited_indices st"] a by (simp add: unvisited_def)
  then show "((p1, p2, m, cycle_num, next_idx, st'), (p1, p2, m, cycle_num, current_idx, st))
        \<in> measure (\<lambda>(p1, p2, m, cycle_num, current_idx, st). unvisited st)"
    by simp
qed

fun cx_outer ::
  "'a list \<Rightarrow> 'a list \<Rightarrow> ('a \<rightharpoonup> nat) \<Rightarrow> nat list \<Rightarrow> nat \<Rightarrow> 'a cx_state \<Rightarrow> error + 'a cx_state" where
  "cx_outer p1 p2 p2_value_to_index [] cycle_num st = Inr st"
| "cx_outer p1 p2 p2_value_to_index (idx # rest) cycle_num st =
     (if length (visited_indices st) \<le> idx then Inl IndexError
      else if visited_indices st ! idx then cx_outer p1 p2 p2_value_to_index rest cycle_num st
      else
        case cx_cycle p1 p2 p2_value_to_index (cycle_num + 1) idx st of
          Inl e \<Rightarrow> Inl e
        | Inr st \<Rightarrow> cx_outer p1 p2 p2_value_to_index rest (cycle_num + 1) st)"

definition cycle_crossover :: "'a list \<Rightarrow> 'a list \<Rightarrow> error + 'a cx_state" where
  "cycle_crossover p1 p2 =
     (let gen_len = length p1;
          p2_value_to_index = map_of (rev (zip p2 [0..<length p2]));
          st = \<lparr>c1_gen = replicate gen_len None,
                c2_gen = replicate gen_len None,
                visited_indices = replicate gen_len False,
                assigned = []\<rparr>
      in cx_outer p1 p2 p2_value_to_index [0..<gen_len] 0 st)"

text \<open>
  The \<open>__call__\<close> methods: parents are taken in pairs, an odd last parent is cloned, a
  length mismatch raises ValueError, and \<open>coin n\<close> is the value of \<open>random.random()\<close> for
  the \<open>n\<close>-th pair: the pair is cloned when it exceeds the rate.  Offspring genotypes are
  lists of cells; a clone has every cell filled.  Genotypes are lists by their type, so
  the \<open>isinstance\<close> check cannot fail.
\<close>

fun CycleCrossover_loop ::
  "real \<Rightarrow> (nat \<Rightarrow> real) \<Rightarrow> nat \<Rightarrow> 'a list individual list
    \<Rightarrow> error + 'a option list individual list" where
  "CycleCrossover_loop rate coin n [] = Inr []"
| "CycleCrossover_loop rate coin n [p1] = Inr [Individual (map Some (genotype p1))]"
| "CycleCrossover_loop rate coin n (p1 # p2 # rest) =
     (if length (genotype p1) \<noteq> length (genotype p2) then Inl ValueError
      else if rate < coin n then
        (case CycleCrossover_loop rate coin (Suc n) rest of
           Inl e \<Rightarrow> Inl e
         | Inr offspring \<Rightarrow>
             Inr (Individual (map Some (genotype p1)) # Individual (map Some (genotype p2))
                  # offspring))
      else
        (case cycle_crossover (genotype p1) (genotype p2) of
           Inl e \<Rightarrow> Inl e
         | Inr st \<Rightarrow>
             (case CycleCrossover_loop rate coin (Suc n) rest of
                Inl e \<Rightarrow> Inl e
              | Inr offspring \<Rightarrow>
                  Inr (Individual (c1_gen st) # Individual (c2_gen st) # offspring))))"

definition CycleCrossover_call ::
  "rate \<Rightarrow> int \<Rightarrow> (nat \<Rightarrow> real) \<Rightarrow> 'a list individual list
    \<Rightarrow> error + 'a option list individual list" where
  "CycleCrossover_call rate_schedule current_generation coin parents =
     CycleCrossover_loop (resolve_rate rate_schedule current_generation) coin 0 parents"

fun OrderedCrossover_loop ::
  "real \<Rightarrow> (nat \<Rightarrow> real) \<Rightarrow> (nat \<Rightarrow> nat \<Rightarrow> nat) \<Rightarrow> nat \<Rightarrow> 'a list individual list
    \<Rightarrow> error + 'a option list individual list" where
  "OrderedCrossover_loop rate coin rnd n [] = Inr []"
| "OrderedCrossover_loop rate coin rnd n [p1] = Inr [Individual (map Some (genotype p1))]"
| "OrderedCrossover_loop rate coin rnd n (p1 # p2 # rest) =
     (let gen_len = length (genotype p1)
      in if gen_len \<noteq> length (genotype p2) then Inl ValueError
         else if gen_len < 2 \<or> rate < coin n then
           (case OrderedCrossover_loop rate coin rnd (Suc n) rest of
              Inl e \<Rightarrow> Inl e
            | Inr offspring \<Rightarrow>
                Inr (Individual (map Some (genotype p1)) # Individual (map Some (genotype p2))
                     # offspring))
         else
           (case random_sample [0..<gen_len] 2 (rnd n) of
              Inl e \<Rightarrow> Inl e
            | Inr cuts \<Rightarrow>
                let start = min (cuts ! 0) (cuts ! 1);
                    end' = max (cuts ! 0) (cuts ! 1)
                in (case create_child (genotype p1) (genotype p2) start end' of
                      Inl e \<Rightarrow> Inl e
                    | Inr child1 \<Rightarrow>
                        (case create_child (genotype p2) (genotype p1) start end' of
                           Inl e \<Rightarrow> Inl e
                         | Inr child2 \<Rightarrow>
                             (case OrderedCrossover_loop rate coin rnd (Suc n) rest of
                                Inl e \<Rightarrow> Inl e
                              | Inr offspring \<Rightarrow>
                                  Inr (Individual child1 # Individual child2 # offspring))))))"

definition OrderedCrossover_call ::
  "rate \<Rightarrow> int \<Rightarrow> (nat \<Rightarrow> real) \<Rightarrow> (nat \<Rightarrow> nat \<Rightarrow> nat) \<Rightarrow> 'a list individual list
    \<Rightarrow> error + 'a option list individual list" where
  "OrderedCrossover_call rate_schedule current_generation coin rnd parents =
     OrderedCrossover_loop (resolve_rate rate_schedule current_generation) coin rnd 0 parents"

text \<open>
  Notions for the proofs: \<open>cx_link\<close> follows the cycle from a position, \<open>cx_inv\<close> is the
  loop invariant on the state, and \<open>cx_closed\<close> says that every assigned position has its
  successor assigned in the same cycle, the position the loop is about to visit excepted.
  \<open>cx_steps\<close> reads the record of assignments as the walk of the two loops: each entry
  after the first either continues the cycle of the entry before it, at the position
  where parent 2 holds the gene that parent 1 holds there, or opens the next cycle at the
  least position not assigned so far.
\<close>

definition cx_link :: "'a list \<Rightarrow> 'a list \<Rightarrow> nat \<Rightarrow> nat" where
  "cx_link p1 p2 i = the (map_of (rev (zip p2 [0..<length p2])) (p1 ! i))"

definition cx_inv :: "'a list \<Rightarrow> 'a list \<Rightarrow> nat \<Rightarrow> 'a cx_state \<Rightarrow> bool" where
  "cx_inv p1 p2 cn st =
     (length (c1_gen st) = length p1 \<and> length (c2_gen st) = length p1
      \<and> length (visited_indices st) = length p1
      \<and> (\<forall>i < length p1. visited_indices st ! i = (i \<in> snd ` set (assigned st)))
      \<and> distinct (map snd (assigned st))
      \<and> sorted (map fst (assigned st))
      \<and> (\<forall>(k, i) \<in> set (assigned st).
            i < length p1 \<and> 1 \<le> k \<and> k \<le> cn
            \<and> c1_gen st ! i = Some (if odd k then p1 ! i else p2 ! i)
            \<and> c2_gen st ! i = Some (if odd k then p2 ! i else p1 ! i)))"

definition cx_closed :: "'a list \<Rightarrow> 'a list \<Rightarrow> 'a cx_state \<Rightarrow> (nat \<times> nat) option \<Rightarrow> bool" where
  "cx_closed p1 p2 st pending =
     (\<forall>(k, i) \<in> set (assigned st).
        (k, cx_link p1 p2 i) \<in> set (assigned st) \<or> pending = Some (k, cx_link p1 p2 i))"

definition cx_steps :: "'a list \<Rightarrow> 'a list \<Rightarrow> (nat \<times> nat) list \<Rightarrow> bool" where
  "cx_steps p1 p2 tr =
     (\<forall>t. Suc t < length tr \<longrightarrow>
        (fst (tr ! Suc t) = fst (tr ! t) \<and> p2 ! snd (tr ! Suc t) = p1 ! snd (tr ! t))
      \<or> (fst (tr ! Suc t) = Suc (fst (tr ! t))
          \<and> (\<forall>j < snd (tr ! Suc t). j \<in> snd ` set (take (Suc t) tr))))"

section \<open>engine.py: EvolutionaryAlgorithm\<close>

text \<open>
  The engine object is a record of its mutable attributes.  The injected callables are
  parameters of the methods that call them: \<open>evaluate_genotype\<close> (the fitness function),
  \<open>create_genotype i\<close> (the \<open>i\<close>-th call of the initializer), \<open>select_parents gen\<close> (parent
  selection as it answers in generation \<open>gen\<close>, its random draws resolved), \<open>reproduce\<close> and
  \<open>select_survivors\<close>; the last three may raise.  The logger is the list of the calls made
  to it.  Candidates are values, so the model covers the runs in which reproduction hands
  back fresh candidates, as the crossover strategies do; a fitness value, once set, is
  never overwritten by the engine.  History is the dictionary of five lists.
\<close>

record history =
  h_generation :: "int list"
  h_best_fitness :: "real list"
  h_mean_fitness :: "real list"
  h_std_fitness :: "real list"
  h_worst_fitness :: "real list"

datatype 'g log_event =
    LogStart int
  | LogGeneration int history "'g individual"
  | LogEnd "'g individual option" int
  | LogClose

record 'g engine =
  self_population_size :: int
  self_population :: "'g individual list"
  self_current_generation :: int
  self_best_individual :: "'g individual option"
  self_history :: history
  self_logger_calls :: "'g log_event list"

text \<open>
  \<open>EvolutionaryAlgorithm.__init__\<close> stores its arguments and sets the internal state; it
  has no check and no raise.  \<open>new_engine\<close> is the object it leaves behind.
\<close>

definition new_engine :: "int \<Rightarrow> 'g engine" where
  "new_engine population_size =
     \<lparr>self_population_size = population_size,
      self_population = [],
      self_current_generation = 0,
      self_best_individual = None,
      self_history = \<lparr>h_generation = [], h_best_fitness = [], h_mean_fitness = [],
                       h_std_fitness = [], h_worst_fitness = []\<rparr>,
      self_logger_calls = []\<rparr>"

definition EvolutionaryAlgorithm_init :: "int \<Rightarrow> error + 'g engine" where
  "EvolutionaryAlgorithm_init population_size = Inr (new_engine population_size)"

text \<open>
  \<open>_evaluate_population\<close>: candidates without fitness are evaluated in list order, and the
  tracker is replaced when it is unset or the new fitness is strictly greater (TypeError
  if the tracked candidate has no fitness to compare with).
\<close>

definition update_best ::
  "'g individual option \<Rightarrow> 'g individual \<Rightarrow> error + 'g individual option" where
  "update_best best ind =
     (case best of
        None \<Rightarrow> Inr (Some ind)
      | Some b \<Rightarrow>
          (case (fitness ind, fitness b) of
             (Some fi, Some fb) \<Rightarrow> if fb < fi then Inr (Some ind) else Inr best
           | _ \<Rightarrow> Inl TypeError))"

fun evaluate_population ::
  "('g \<Rightarrow> real) \<Rightarrow> 'g individual option \<Rightarrow> 'g individual list
    \<Rightarrow> error + ('g individual list \<times> 'g individual option)" where
  "evaluate_population evaluate_genotype best [] = Inr ([], best)"
| "evaluate_population evaluate_genotype best (ind # rest) =
     (if fitness ind = None then
        (let ind' = ind\<lparr>fitness := Some (evaluate_genotype (genotype ind))\<rparr>
         in case update_best best ind' of
              Inl e \<Rightarrow> Inl e
            | Inr best' \<Rightarrow>
                (case evaluate_population evaluate_genotype best' rest of
                   Inl e \<Rightarrow> Inl e
                 | Inr (rest', best'') \<Rightarrow> Inr (ind' # rest', best'')))
      else
        (case evaluate_population evaluate_genotype best rest of
           Inl e \<Rightarrow> Inl e
         | Inr (rest', best'') \<Rightarrow> Inr (ind # rest', best'')))"

text \<open>
  The numpy statistics over a non-empty list of fitness values, and
  \<open>_update_history_and_log\<close>.
\<close>

definition np_max :: "real list \<Rightarrow> real" where
  "np_max xs = fold max (tl xs) (hd xs)"

definition np_min :: "real list \<Rightarrow> real" where
  "np_min xs = fold min (tl xs) (hd xs)"

definition np_mean :: "real list \<Rightarrow> real" where
  "np_mean xs = sum_list xs / real (length xs)"

definition np_std :: "real list \<Rightarrow> real" where
  "np_std xs = sqrt (sum_list (map (\<lambda>x. (x - np_mean xs)\<^sup>2) xs) / real (length xs))"

definition update_history_and_log :: "int \<Rightarrow> 'g engine \<Rightarrow> error + 'g engine" where
  "update_history_and_log generation e =
     (if self_population e = [] then Inr e
      else
        let current_fitnesses =
              map fitness_key (filter (\<lambda>ind. fitness ind \<noteq> None) (self_population e))
        in if current_fitnesses = [] then Inr e
           else
             let h = self_history e;
                 h = h\<lparr>h_generation := h_generation h @ [generation],
                       h_best_fitness := h_best_fitness h @ [np_max current_fitnesses],
                       h_mean_fitness := h_mean_fitness h @ [np_mean current_fitnesses],
                       h_std_fitness := h_std_fitness h @ [np_std current_fitnesses],
                       h_worst_fitness := h_worst_fitness h @ [np_min current_fitnesses]\<rparr>
             in case py_max_by_fitness (self_population e) of
                  Inl err \<Rightarrow> Inl err
                | Inr best_in_gen \<Rightarrow>
                    Inr (e\<lparr>self_history := h,
                           self_logger_calls :=
                             self_logger_calls e @ [LogGeneration generation h best_in_gen]\<rparr>))"

text \<open>
  \<open>run\<close>: \<open>initialize\<close> is the part before the loop, \<open>generation_step\<close> the loop body,
  \<open>evolve\<close> the loop over \<open>range(1, generations + 1)\<close>.  \<open>run_trace\<close> collects the engine
  after generation 0 and after every later generation, with the exception that ended the
  run, if any; \<open>run\<close> is the engine on return.
\<close>

definition generation_step ::
  "('g \<Rightarrow> real)
    \<Rightarrow> (int \<Rightarrow> 'g individual list \<Rightarrow> error + 'g individual list)
    \<Rightarrow> ('g individual list \<Rightarrow> int \<Rightarrow> error + 'g individual list)
    \<Rightarrow> ('g individual list \<Rightarrow> 'g individual list \<Rightarrow> error + 'g individual list)
    \<Rightarrow> int \<Rightarrow> 'g engine \<Rightarrow> error + 'g engine" where
  "generation_step evaluate_genotype select_parents reproduce select_survivors gen e =
     (let e = e\<lparr>self_current_generation := gen\<rparr>
      in case select_parents gen (self_population e) of
           Inl err \<Rightarrow> Inl err
         | Inr parents \<Rightarrow>
             (case reproduce parents (self_current_generation e) of
                Inl err \<Rightarrow> Inl err
              | Inr offspring \<Rightarrow>
                  (case evaluate_population evaluate_genotype (self_best_individual e) offspring of
                     Inl err \<Rightarrow> Inl err
                   | Inr (offspring, best) \<Rightarrow>
                       let e = e\<lparr>self_best_individual := best\<rparr>;
                           e = e\<lparr>self_population :=
                                   map (\<lambda>ind. ind\<lparr>age := age ind + 1\<rparr>) (self_population e)\<rparr>
                       in case select_survivors (self_population e) offspring of
                            Inl err \<Rightarrow> Inl err
                          | Inr survivors \<Rightarrow>
                              update_history_and_log gen (e\<lparr>self_population := survivors\<rparr>))))"

definition initialize ::
  "('g \<Rightarrow> real) \<Rightarrow> (nat \<Rightarrow> 'g) \<Rightarrow> 'g engine \<Rightarrow> error + 'g engine" where
  "initialize evaluate_genotype create_genotype e =
     (let e = e\<lparr>self_logger_calls := self_logger_calls e @ [LogStart (self_population_size e)]\<rparr>;
          initial_genotypes = map create_genotype [0..<nat (self_population_size e)];
          e = e\<lparr>self_population := map Individual initial_genotypes\<rparr>
      in case evaluate_population evaluate_genotype (self_best_individual e) (self_population e) of
           Inl err \<Rightarrow> Inl err
         | Inr (pop, best) \<Rightarrow>
             let e = e\<lparr>self_population := pop, self_best_individual := best\<rparr>
             in if self_best_individual e = None then Inl ValueError
                else update_history_and_log 0 e)"

fun evolve ::
  "('g \<Rightarrow> real)
    \<Rightarrow> (int \<Rightarrow> 'g individual list \<Rightarrow> error + 'g individual list)
    \<Rightarrow> ('g individual list \<Rightarrow> int \<Rightarrow> error + 'g individual list)
    \<Rightarrow> ('g individual list \<Rightarrow> 'g individual list \<Rightarrow> error + 'g individual list)
    \<Rightarrow> int list \<Rightarrow> 'g engine \<Rightarrow> 'g engine list \<times> error option" where
  "evolve evaluate_genotype select_parents reproduce select_survivors [] e = ([], None)"
| "evolve evaluate_genotype select_parents reproduce select_survivors (gen # gens) e =
     (case generation_step evaluate_genotype select_parents reproduce select_survivors gen e of
        Inl err \<Rightarrow> ([], Some err)
      | Inr e' \<Rightarrow>
          (case evolve evaluate_genotype select_parents reproduce select_survivors gens e' of
             (es, r) \<Rightarrow> (e' # es, r)))"

definition run_trace ::
  "('g \<Rightarrow> real) \<Rightarrow> (nat \<Rightarrow> 'g)
    \<Rightarrow> (int \<Rightarrow> 'g individual list \<Rightarrow> error + 'g individual list)
    \<Rightarrow> ('g individual list \<Rightarrow> int \<Rightarrow> error + 'g individual list)
    \<Rightarrow> ('g individual list \<Rightarrow> 'g individual list \<Rightarrow> error + 'g individual list)
    \<Rightarrow> int \<Rightarrow> 'g engine \<Rightarrow> 'g engine list \<times> error option" where
  "run_trace evaluate_genotype create_genotype select_parents reproduce select_survivors
     generations e =
     (case initialize evaluate_genotype create_genotype e of
        Inl err \<Rightarrow> ([], Some err)
      | Inr e0 \<Rightarrow>
          (case evolve evaluate_genotype select_parents reproduce select_survivors
                  [1..generations] e0 of
             (es, r) \<Rightarrow> (e0 # es, r)))"

definition run ::
  "('g \<Rightarrow> real) \<Rightarrow> (nat \<Rightarrow> 'g)
    \<Rightarrow> (int \<Rightarrow> 'g individual list \<Rightarrow> error + 'g individual list)
    \<Rightarrow> ('g individual list \<Rightarrow> int \<Rightarrow> error + 'g individual list)
    \<Rightarrow> ('g individual list \<Rightarrow> 'g individual list \<Rightarrow> error + 'g individual list)
    \<Rightarrow> int \<Rightarrow> 'g engine \<Rightarrow> error + 'g engine" where
  "run evaluate_genotype create_genotype select_parents reproduce select_survivors
     generations e =
     (case run_trace evaluate_genotype create_genotype select_parents reproduce select_survivors
             generations e of
        (es, Some err) \<Rightarrow> Inl err
      | (es, None) \<Rightarrow>
          let e = last es
          in Inr (e\<lparr>self_logger_calls :=
                      self_logger_calls e @ [LogEnd (self_best_individual e) generations, LogClose]\<rparr>))"

text \<open>The two quantities of the elitism property.\<close>

definition tracker_fitness :: "'g engine \<Rightarrow> real" where
  "tracker_fitness e = fitness_key (the (self_best_individual e))"

definition population_best :: "'g engine \<Rightarrow> real" where
  "population_best e = np_max (map fitness_key (self_population e))"


text \<open>
  Invariants of the run used in the proofs: the tracker holds an evaluated candidate, and
  the live population is non-empty and evaluated.
\<close>

definition best_wf :: "'g individual option \<Rightarrow> bool" where
  "best_wf best = (case best of None \<Rightarrow> True | Some b \<Rightarrow> fitness b \<noteq> None)"

definition tracker_ok :: "'g engine \<Rightarrow> bool" where
  "tracker_ok e = (case self_best_individual e of None \<Rightarrow> False | Some b \<Rightarrow> fitness b \<noteq> None)"

definition live_ok :: "'g engine \<Rightarrow> bool" where
  "live_ok e = (self_population e \<noteq> [] \<and> evaluated (self_population e))"

section \<open>Ordered crossover: the concrete scenario\<close>

text \<open>
  C1 (as stated, refuted): for parent1 = [1,2,3,4,5,6,7,8], parent2 = [3,7,5,1,6,8,2,4]
  and cut points 3 and 5, the child is claimed to be [3,7,8,4,5,6,1,2].  The code does
  not return that genotype.
\<close>

theorem C1_create_child_counterexample:
  "create_child [1,2,3,4,5,6,7,8::int] [3,7,5,1,6,8,2,4] 3 5
     \<noteq> Inr (map Some [3,7,8,4,5,6,1,2])"
  by code_simp

text \<open>
  C1 (amended): for the same parents and cut points the child is [7,1,8,4,5,6,2,3]:
  the swath [4,5,6] sits at positions 3 to 5, and positions 6, 7, 0, 1, 2 receive
  2, 3, 7, 1, 8, the genes of parent 2 read circularly from index 6 with 4, 5 and 6
  skipped.
\<close>

theorem C1_create_child_scenario:
  "create_child [1,2,3,4,5,6,7,8::int] [3,7,5,1,6,8,2,4] 3 5
     = Inr (map Some [7,1,8,4,5,6,2,3])"
  by code_simp


section \<open>Ordered crossover: every child is a permutation\<close>

lemma ox_base:
  assumes "s < a" "a \<le> length p1"
  shows "py_slice_assign (replicate (length p1) None) s a (map Some (py_slice p1 s a))
           = ox_partial p1 F s a 0"
  using assms
  by (auto simp: py_slice_assign_def py_slice_def ox_partial_def nth_append
      intro!: nth_equalityI)

lemma ox_genes:
  assumes "s < a" "a \<le> length p1"
  shows "set (py_slice (ox_partial p1 F s a 0) s a) = Some ` set (py_slice p1 s a)"
proof -
  have "py_slice (ox_partial p1 F s a 0) s a = map Some (py_slice p1 s a)"
    using assms
    by (auto simp: py_slice_def ox_partial_def intro!: nth_equalityI)
  then show ?thesis by simp
qed

lemma mod_wrap:
  fixes a :: nat
  assumes "a \<le> n" "j < n"
  shows "(a + j) mod n = (if a + j < n then a + j else a + j - n)"
  using assms by (simp add: mod_if)

lemma mod_unwrap:
  fixes a :: nat
  assumes "p < n" "a \<le> n"
  shows "(p + n - a) mod n = (if a \<le> p then p - a else p + n - a)"
proof (cases "a \<le> p")
  case True
  then have "p + n - a = (p - a) + n" by arith
  then have "(p + n - a) mod n = (p - a) mod n" by simp
  then show ?thesis using True assms by simp
next
  case False
  then have "p + n - a < n" using assms by arith
  then show ?thesis using False by simp
qed

lemma ox_write_pos:
  fixes a :: nat
  assumes "s < a" "a \<le> n" "m + (a - s) = n" "j \<le> m"
  shows "((a + j) mod n = s) = (j = m)"
proof -
  have "j < n" using assms by arith
  from mod_wrap [OF assms(2) this] show ?thesis using assms by (auto split: if_splits)
qed

lemma ox_index:
  fixes a :: nat
  assumes "s < a" "a \<le> n" "m + (a - s) = n" "j < m"
  shows "(a + j) mod n < n"
    and "\<not> (s \<le> (a + j) mod n \<and> (a + j) mod n < a)"
    and "((a + j) mod n + n - a) mod n = j"
    and "p < n \<Longrightarrow> (p + n - a) mod n = j \<Longrightarrow> p = (a + j) mod n"
proof -
  let ?q = "(a + j) mod n"
  have jn: "j < n" using assms by arith
  have q: "?q = (if a + j < n then a + j else a + j - n)"
    by (rule mod_wrap [OF assms(2) jn])
  show "?q < n" using assms by simp
  show "\<not> (s \<le> ?q \<and> ?q < a)" unfolding q using assms by (auto split: if_splits)
  have "(?q + n - a) = (if a + j < n then n + j else j)"
    unfolding q using assms by (auto split: if_splits)
  then show "(?q + n - a) mod n = j" using jn by (simp split: if_splits)
  assume p: "p < n" and pj: "(p + n - a) mod n = j"
  have ip: "(p + n - a) mod n = (if a \<le> p then p - a else p + n - a)"
    using p assms(2) by (rule mod_unwrap)
  show "p = ?q" using pj p assms unfolding ip q by (auto split: if_splits) 
qed

lemma ox_step:
  assumes "s < a" "a \<le> length p1" "m + (a - s) = length p1" "j < m"
  shows "(ox_partial p1 F s a j)[(a + j) mod length p1 := Some (F ! j)]
           = ox_partial p1 F s a (Suc j)"
proof (rule nth_equalityI)
  show "length ((ox_partial p1 F s a j)[(a + j) mod length p1 := Some (F ! j)])
          = length (ox_partial p1 F s a (Suc j))"
    by (simp add: ox_partial_def)
next
  fix p
  assume "p < length ((ox_partial p1 F s a j)[(a + j) mod length p1 := Some (F ! j)])"
  then have p: "p < length p1" by (simp add: ox_partial_def)
  let ?n = "length p1"
  let ?q = "(a + j) mod ?n"
  note ix = ox_index [OF assms]
  show "(ox_partial p1 F s a j)[?q := Some (F ! j)] ! p = ox_partial p1 F s a (Suc j) ! p"
  proof (cases "p = ?q")
    case True
    have "(ox_partial p1 F s a j)[?q := Some (F ! j)] ! ?q = Some (F ! j)"
      using ix(1) by (simp add: ox_partial_def)
    moreover have "ox_partial p1 F s a (Suc j) ! ?q = Some (F ! j)"
      using ix(1,2,3) by (auto simp: ox_partial_def)
    ultimately show ?thesis using True by simp
  next
    case False
    then have "(p + ?n - a) mod ?n \<noteq> j" using ix(4) p by blast
    then show ?thesis using False p
      by (simp add: ox_partial_def less_Suc_eq)
  qed
qed


lemma filter_take_Suc:
  "k < length xs \<Longrightarrow>
   filter P (take (Suc k) xs) = filter P (take k xs) @ (if P (xs ! k) then [xs ! k] else [])"
  by (simp add: take_Suc_conv_app_nth)

lemma filter_nth_count:
  assumes "k < length xs" "P (xs ! k)"
  shows "filter P xs ! length (filter P (take k xs)) = xs ! k"
    and "length (filter P (take k xs)) < length (filter P xs)"
proof -
  have "xs = take k xs @ xs ! k # drop (Suc k) xs"
    using assms(1) by (rule id_take_nth_drop)
  then have "filter P xs = filter P (take k xs) @ xs ! k # filter P (drop (Suc k) xs)"
    using assms(2) by (metis filter.simps(2) filter_append)
  then show "filter P xs ! length (filter P (take k xs)) = xs ! k"
    and "length (filter P (take k xs)) < length (filter P xs)"
    by (simp_all add: nth_append)
qed

lemma filter_count_le: "length (filter P (take k xs)) \<le> length (filter P xs)"
proof -
  have "filter P xs = filter P (take k xs) @ filter P (drop k xs)"
    by (metis append_take_drop_id filter_append)
  then show ?thesis by simp
qed

lemma filter_count_less:
  "length (filter P (take k xs)) < length (filter P xs) \<Longrightarrow> k < length xs"
  by (rule ccontr) simp

lemma ox_fill_loop:
  fixes p1 p2 :: "'a list"
  defines "n \<equiv> length p1"
  assumes sa: "s < a" "a \<le> n" and len: "length p2 = n"
    and m: "m + (a - s) = n" "length (ox_rest p1 p2 s a) = m"
  shows "k < n \<Longrightarrow> j = length (filter (\<lambda>g. g \<notin> set (py_slice p1 s a)) (take k (rotate a p2)))
     \<Longrightarrow> it + k = n
     \<Longrightarrow> ox_fill it n s p2 (Some ` set (py_slice p1 s a)) ((a + k) mod n) ((a + j) mod n)
           (ox_partial p1 (ox_rest p1 p2 s a) s a j)
         = Inr (ox_partial p1 (ox_rest p1 p2 s a) s a m)"
proof (induction it arbitrary: k j)
  case 0
  then show ?case by simp
next
  case (Suc it)
  let ?P = "\<lambda>g. g \<notin> set (py_slice p1 s a)"
  let ?rot = "rotate a p2"
  let ?F = "ox_rest p1 p2 s a"
  let ?genes = "Some ` set (py_slice p1 s a)"
  have F: "?F = filter ?P ?rot" by (simp add: ox_rest_def)
  have kr: "k < length ?rot" using Suc.prems len by simp
  have npos: "0 < n" using Suc.prems by simp
  have r: "(a + k) mod n < length p2" using npos len by simp
  have gene: "p2 ! ((a + k) mod n) = ?rot ! k"
    using Suc.prems len by (simp add: nth_rotate)
  have mem: "(Some g \<notin> ?genes) = ?P g" for g by auto
  have jm: "j \<le> m" using Suc.prems(2) m(2) filter_count_le [of ?P k ?rot] F by simp
  have r': "((a + k) mod n + 1) mod n = (a + Suc k) mod n"
    by (simp add: mod_Suc_eq)
  show ?case
  proof (cases "?P (?rot ! k)")
    case True
    have Fj: "?F ! j = ?rot ! k" and jlt: "j < m"
      using filter_nth_count [OF kr, of ?P] True Suc.prems(2) m(2) F by simp_all
    have upd: "(ox_partial p1 ?F s a j)[(a + j) mod n := Some (?rot ! k)]
                 = ox_partial p1 ?F s a (Suc j)"
      using ox_step [of s a p1 m j ?F] sa m(1) jlt Fj by (simp add: n_def)
    have w': "((a + j) mod n + 1) mod n = (a + Suc j) mod n"
      by (simp add: mod_Suc_eq)
    have cnt: "Suc j = length (filter ?P (take (Suc k) ?rot))"
      using filter_take_Suc [OF kr, of ?P] True Suc.prems(2) by simp
    have stop: "((a + Suc j) mod n = s) = (Suc j = m)"
      using ox_write_pos [of s a n m "Suc j"] sa m(1) jlt by simp
    show ?thesis
    proof (cases "Suc j = m")
      case True
      then show ?thesis
        using r gene \<open>?P (?rot ! k)\<close> mem upd w' stop
        by (simp add: Let_def)
    next
      case False
      have "length (filter ?P (take (Suc k) ?rot)) < length (filter ?P ?rot)"
        using cnt False jlt m(2) F by simp
      then have "Suc k < n" using filter_count_less [of ?P "Suc k" ?rot] len by simp
      from Suc.IH [OF this cnt] Suc.prems(3)
      have "ox_fill it n s p2 ?genes ((a + Suc k) mod n) ((a + Suc j) mod n)
              (ox_partial p1 ?F s a (Suc j)) = Inr (ox_partial p1 ?F s a m)"
        by simp
      then show ?thesis
        using r gene \<open>?P (?rot ! k)\<close> mem upd w' r' stop False
        by (simp add: Let_def)
    qed
  next
    case False
    have cnt: "j = length (filter ?P (take (Suc k) ?rot))"
      using filter_take_Suc [OF kr, of ?P] False Suc.prems(2) by simp
    have stop: "((a + j) mod n = s) = (j = m)"
      using ox_write_pos [of s a n m j] sa m(1) jm by simp
    show ?thesis
    proof (cases "j = m")
      case True
      then show ?thesis
        using r gene False mem stop by (simp add: Let_def)
    next
      case jne: False
      have "length (filter ?P (take (Suc k) ?rot)) < length (filter ?P ?rot)"
        using cnt jne jm m(2) F by simp
      then have "Suc k < n" using filter_count_less [of ?P "Suc k" ?rot] len by simp
      from Suc.IH [OF this cnt] Suc.prems(3)
      have "ox_fill it n s p2 ?genes ((a + Suc k) mod n) ((a + j) mod n)
              (ox_partial p1 ?F s a j) = Inr (ox_partial p1 ?F s a m)"
        by simp
      then show ?thesis
        using r gene False mem r' stop jne by (simp add: Let_def)
    qed
  qed
qed

lemma distinct_mid_filter:
  assumes "distinct (A @ B @ C)"
  shows "filter (\<lambda>x. x \<in> set B) (A @ B @ C) = B"
proof -
  have "filter (\<lambda>x. x \<in> set B) A = []" "filter (\<lambda>x. x \<in> set B) C = []"
    using assms by (auto simp: filter_empty_conv)
  moreover have "filter (\<lambda>x. x \<in> set B) B = B" by simp
  ultimately show ?thesis by simp
qed

lemma mset_py_slice_distinct:
  assumes "distinct xs"
  shows "mset (py_slice xs s a) = filter_mset (\<lambda>x. x \<in> set (py_slice xs s a)) (mset xs)"
proof -
  let ?B = "py_slice xs s a"
  have split: "xs = take s xs @ ?B @ drop (a - s) (drop s xs)"
    by (simp only: py_slice_def append_take_drop_id)
  have "distinct (take s xs @ ?B @ drop (a - s) (drop s xs))"
    using assms split by simp
  then have "filter (\<lambda>x. x \<in> set ?B) (take s xs @ ?B @ drop (a - s) (drop s xs)) = ?B"
    by (rule distinct_mid_filter)
  then have "filter (\<lambda>x. x \<in> set ?B) xs = ?B" by (simp only: split [symmetric])
  then have "mset ?B = mset (filter (\<lambda>x. x \<in> set ?B) xs)" by simp
  then show ?thesis by simp
qed

lemma mset_ox_rest:
  assumes "distinct p1" "mset p2 = mset p1"
  shows "mset (ox_rest p1 p2 s a) + mset (py_slice p1 s a) = mset p1"
proof -
  let ?B = "py_slice p1 s a"
  have "mset (ox_rest p1 p2 s a) = filter_mset (\<lambda>g. g \<notin> set ?B) (mset p1)"
  proof -
    have "mset (rotate a p2) = mset (drop (a mod length p2) p2) + mset (take (a mod length p2) p2)"
      by (simp add: rotate_drop_take)
    also have "\<dots> = mset (take (a mod length p2) p2 @ drop (a mod length p2) p2)"
      unfolding mset_append by (simp add: union_commute)
    also have "\<dots> = mset p2" by simp
    finally show ?thesis using assms(2) by (simp add: ox_rest_def)
  qed
  moreover have "mset ?B = filter_mset (\<lambda>g. g \<in> set ?B) (mset p1)"
    using assms(1) by (rule mset_py_slice_distinct)
  ultimately show ?thesis by (simp add: union_commute)
qed

lemma length_ox_rest:
  assumes "distinct p1" "mset p2 = mset p1" "s < a" "a \<le> length p1"
  shows "length (ox_rest p1 p2 s a) + (a - s) = length p1"
proof -
  have "size (mset (ox_rest p1 p2 s a) + mset (py_slice p1 s a)) = size (mset p1)"
    using mset_ox_rest [OF assms(1,2)] by simp
  moreover have "length (py_slice p1 s a) = a - s"
    using assms(3,4) by (simp add: py_slice_def)
  ultimately show ?thesis by simp
qed

lemma ox_partial_full:
  assumes "s < a" "a \<le> length p1" "length F + (a - s) = length p1"
  shows "ox_partial p1 F s a (length F)
           = map Some (drop (length p1 - a) F @ py_slice p1 s a @ take (length p1 - a) F)"
proof (rule nth_equalityI)
  show "length (ox_partial p1 F s a (length F))
          = length (map Some (drop (length p1 - a) F @ py_slice p1 s a @ take (length p1 - a) F))"
    using assms by (simp add: ox_partial_def py_slice_def)
next
  fix p
  assume "p < length (ox_partial p1 F s a (length F))"
  then have p: "p < length p1" by (simp add: ox_partial_def)
  let ?n = "length p1"
  let ?L = "drop (?n - a) F @ py_slice p1 s a @ take (?n - a) F"
  have ip: "(p + ?n - a) mod ?n = (if a \<le> p then p - a else p + ?n - a)"
    using p assms(2) by (rule mod_unwrap)
  have ld: "length (drop (?n - a) F) = s" using assms by simp
  have ls: "length (py_slice p1 s a) = a - s" using assms by (simp add: py_slice_def)
  have "p < length ?L" using assms p by (simp add: py_slice_def)
  then have R: "map Some ?L ! p = Some (?L ! p)" by (rule nth_map)
  have cell: "ox_partial p1 F s a (length F) ! p =
     (if s \<le> p \<and> p < a then Some (p1 ! p)
      else if (p + ?n - a) mod ?n < length F then Some (F ! ((p + ?n - a) mod ?n)) else None)"
    using p by (simp add: ox_partial_def)
  consider "p < s" | "s \<le> p" "p < a" | "a \<le> p" by linarith
  then have "ox_partial p1 F s a (length F) ! p = Some (?L ! p)"
  proof cases
    case 1
    have i: "(p + ?n - a) mod ?n = p + ?n - a" using ip 1 assms by simp
    have lt: "p + ?n - a < length F" using 1 assms by arith
    have "?L ! p = drop (?n - a) F ! p" using 1 ld by (simp add: nth_append)
    also have "\<dots> = F ! (?n - a + p)" using lt assms by simp
    also have "?n - a + p = p + ?n - a" using assms by arith
    finally have "?L ! p = F ! (p + ?n - a)" .
    moreover have "ox_partial p1 F s a (length F) ! p = Some (F ! (p + ?n - a))"
      unfolding cell i using 1 lt by simp
    ultimately show ?thesis by simp
  next
    case 2
    have "p - s < a - s" using 2 by arith
    then have "?L ! p = py_slice p1 s a ! (p - s)"
      using 2 ld ls by (simp add: nth_append)
    also have "\<dots> = p1 ! p" using 2 assms by (simp add: py_slice_def)
    finally have "?L ! p = p1 ! p" .
    moreover have "ox_partial p1 F s a (length F) ! p = Some (p1 ! p)"
      unfolding cell using 2 by simp
    ultimately show ?thesis by simp
  next
    case 3
    have i: "(p + ?n - a) mod ?n = p - a" using ip 3 by simp
    have lt: "p - a < length F" "p - a < ?n - a" using 3 p assms by arith+
    have "\<not> p < s" "\<not> p - s < a - s" "p - s - (a - s) = p - a" using 3 assms by arith+
    then have "?L ! p = take (?n - a) F ! (p - a)"
      using ld ls by (simp add: nth_append)
    also have "\<dots> = F ! (p - a)" using lt by simp
    finally have "?L ! p = F ! (p - a)" .
    moreover have "ox_partial p1 F s a (length F) ! p = Some (F ! (p - a))"
      unfolding cell i using 3 lt by simp
    ultimately show ?thesis by simp
  qed
  with R show "ox_partial p1 F s a (length F) ! p = map Some ?L ! p" by simp
qed

lemma create_child_permutation:
  assumes d: "distinct p1" and ms: "mset p2 = mset p1"
    and se: "start \<le> end'" "end' < length p1"
  shows "\<exists>child. create_child p1 p2 start end' = Inr (map Some child)
           \<and> length child = length p1
           \<and> (\<forall>i. start \<le> i \<and> i \<le> end' \<longrightarrow> child ! i = p1 ! i)
           \<and> mset child = mset p1"
proof -
  let ?n = "length p1"
  let ?a = "Suc end'"
  let ?F = "ox_rest p1 p2 start ?a"
  let ?child = "drop (?n - ?a) ?F @ py_slice p1 start ?a @ take (?n - ?a) ?F"
  have sa: "start < ?a" "?a \<le> ?n" using se by simp_all
  have len: "length p2 = ?n" using ms by (metis size_mset)
  have m: "length ?F + (?a - start) = ?n"
    using length_ox_rest [OF d ms sa] .
  have loop: "ox_fill ?n ?n start p2 (Some ` set (py_slice p1 start ?a)) (?a mod ?n) (?a mod ?n)
                (ox_partial p1 ?F start ?a 0) = Inr (ox_partial p1 ?F start ?a (length ?F))"
  proof -
    have "0 < ?n" using se by auto
    moreover have "0 = length (filter (\<lambda>g. g \<notin> set (py_slice p1 start ?a)) (take 0 (rotate ?a p2)))"
      by simp
    moreover have "?n + 0 = ?n" by simp
    ultimately have "ox_fill ?n ?n start p2 (Some ` set (py_slice p1 start ?a))
        ((?a + 0) mod ?n) ((?a + 0) mod ?n) (ox_partial p1 ?F start ?a 0)
        = Inr (ox_partial p1 ?F start ?a (length ?F))"
      by (rule ox_fill_loop [OF sa len m refl])
    then show ?thesis by simp
  qed
  have run: "create_child p1 p2 start end' = Inr (map Some ?child)"
  proof -
    have ne: "p1 \<noteq> []" using se by auto
    show ?thesis
      using loop ne ox_base [OF sa, of ?F] ox_genes [OF sa, of ?F] ox_partial_full [OF sa m]
      by (simp add: create_child_def Let_def)
  qed
  have lenc: "length ?child = ?n" using m sa by (simp add: py_slice_def)
  have swath: "?child ! i = p1 ! i" if "start \<le> i" "i \<le> end'" for i
  proof -
    have "length (drop (?n - ?a) ?F) = start" using m sa by simp
    moreover have "length (py_slice p1 start ?a) = ?a - start" using sa by (simp add: py_slice_def)
    moreover have "\<not> i < start" "i - start < ?a - start" using that by arith+
    ultimately have "?child ! i = py_slice p1 start ?a ! (i - start)"
      by (simp add: nth_append)
    also have "\<dots> = p1 ! i" using that sa by (simp add: py_slice_def)
    finally show ?thesis .
  qed
  have "mset ?child = mset (drop (?n - ?a) ?F) + mset (take (?n - ?a) ?F)
                        + mset (py_slice p1 start ?a)"
    by simp
  also have "mset (drop (?n - ?a) ?F) + mset (take (?n - ?a) ?F) = mset ?F"
  proof -
    have "mset (take (?n - ?a) ?F @ drop (?n - ?a) ?F) = mset ?F" by simp
    then show ?thesis unfolding mset_append by (simp add: union_commute)
  qed
  also have "mset ?F + mset (py_slice p1 start ?a) = mset p1"
    by (rule mset_ox_rest [OF d ms])
  finally have "mset ?child = mset p1" .
  with run lenc swath show ?thesis by blast
qed

text \<open>
  C2: for parents that are permutations of the same gene set (equal length, at least 2)
  and cut indices \<open>start \<le> end\<close>, \<open>start \<noteq> end\<close>, \<open>end < length\<close>, both children built by
  \<open>create_child\<close> are returned with every position filled, each equals its swath donor
  on the positions \<open>start..end\<close>, and each has the gene multiset of the parents.
\<close>

theorem C2_ordered_crossover_children:
  assumes "distinct parent1" and "mset parent2 = mset parent1"
    and "2 \<le> length parent1"
    and "start \<le> end'" and "start \<noteq> end'" and "end' < length parent1"
  shows "\<exists>child1 child2.
           create_child parent1 parent2 start end' = Inr (map Some child1)
         \<and> create_child parent2 parent1 start end' = Inr (map Some child2)
         \<and> length child1 = length parent1 \<and> length child2 = length parent1
         \<and> (\<forall>i. start \<le> i \<and> i \<le> end' \<longrightarrow> child1 ! i = parent1 ! i \<and> child2 ! i = parent2 ! i)
         \<and> mset child1 = mset parent1 \<and> mset child2 = mset parent1"
proof -
  have d2: "distinct parent2" using assms(1,2) by (metis mset_eq_imp_distinct_iff)
  have len: "length parent2 = length parent1" using assms(2) by (metis size_mset)
  obtain child1 where c1: "create_child parent1 parent2 start end' = Inr (map Some child1)"
      "length child1 = length parent1"
      "\<forall>i. start \<le> i \<and> i \<le> end' \<longrightarrow> child1 ! i = parent1 ! i"
      "mset child1 = mset parent1"
    using create_child_permutation [OF assms(1,2,4,6)] by blast
  obtain child2 where c2: "create_child parent2 parent1 start end' = Inr (map Some child2)"
      "length child2 = length parent2"
      "\<forall>i. start \<le> i \<and> i \<le> end' \<longrightarrow> child2 ! i = parent2 ! i"
      "mset child2 = mset parent2"
    using create_child_permutation [OF d2 assms(2) [symmetric] assms(4)] assms(6) len by auto
  show ?thesis using c1 c2 len assms(2) by auto
qed

theorem C2_ordered_crossover_children_witness:
  "distinct [1,2,3,4::int] \<and> mset [3,1,4,2] = mset [1,2,3,4::int]
   \<and> 2 \<le> length [1,2,3,4::int] \<and> (1::nat) \<le> 2 \<and> (1::nat) \<noteq> 2 \<and> 2 < length [1,2,3,4::int]
   \<and> (\<exists>child1 child2.
           create_child [1,2,3,4::int] [3,1,4,2] 1 2 = Inr (map Some child1)
         \<and> create_child [3,1,4,2] [1,2,3,4::int] 1 2 = Inr (map Some child2)
         \<and> length child1 = length [1,2,3,4::int] \<and> length child2 = length [1,2,3,4::int]
         \<and> (\<forall>i. 1 \<le> i \<and> i \<le> 2 \<longrightarrow> child1 ! i = [1,2,3,4] ! i \<and> child2 ! i = [3,1,4,2] ! i)
         \<and> mset child1 = mset [1,2,3,4] \<and> mset child2 = mset [1,2,3,4])"
proof -
  have h: "distinct [1,2,3,4::int]" "mset [3,1,4,2] = mset [1,2,3,4::int]"
    "2 \<le> length [1,2,3,4::int]" "(1::nat) \<le> 2" "(1::nat) \<noteq> 2" "2 < length [1,2,3,4::int]"
    by simp_all
  show ?thesis by (intro conjI h C2_ordered_crossover_children [OF h])
qed
section \<open>Survivor selection\<close>

lemma mset_sort_desc: "mset (sort_desc xs) = mset xs"
  by (simp add: sort_desc_def)

lemma set_sort_desc: "set (sort_desc xs) = set xs"
  by (simp add: sort_desc_def)

lemma length_sort_desc: "length (sort_desc xs) = length xs"
  by (simp add: sort_desc_def)

lemma fitness_descending_sort_desc: "fitness_descending (sort_desc xs)"
proof -
  have "sorted (map fitness_key (sort_key fitness_key (rev xs)))" by (rule sorted_sort_key)
  then have "sorted_wrt (\<lambda>x y. fitness_key x \<le> fitness_key y) (sort_key fitness_key (rev xs))"
    by (simp add: sorted_map)
  then show ?thesis
    by (simp add: fitness_descending_def sort_desc_def sorted_wrt_rev)
qed

lemma sort_desc_stable:
  "filter (\<lambda>x. fitness_key x = k) (sort_desc xs) = filter (\<lambda>x. fitness_key x = k) xs"
proof -
  have "filter (\<lambda>x. fitness_key x = k) (sort_key fitness_key (rev xs))
          = filter (\<lambda>x. fitness_key x = k) (rev xs)"
    by (rule sort_key_stable)
  then show ?thesis by (simp add: sort_desc_def rev_filter [symmetric])
qed

lemma py_sort_evaluated:
  "evaluated xs \<Longrightarrow> py_sort_by_fitness_desc xs = Inr (sort_desc xs)"
  by (auto simp: py_sort_by_fitness_desc_def evaluated_def)

lemma py_prefix_nonneg: "0 \<le> k \<Longrightarrow> py_prefix xs k = take (nat k) xs"
  by (simp add: py_prefix_def)

text \<open>
  C4: with fewer offspring than \<open>population_size\<close>, comma selection raises the capacity
  error (ValueError) before sorting: no survivor list is returned and the caller's offspring
  list is left as it was.  With at least \<open>population_size\<close> (a size, so non-negative)
  evaluated offspring it returns the first \<open>population_size\<close> entries of the offspring sorted
  by fitness descending (a permutation of the offspring, which is also what the caller's list
  becomes), and the result does not depend on the old population.
\<close>

theorem C4_comma_selection:
  "(int (length offspring) < population_size \<longrightarrow>
      CommaSelection_call population_size old_population offspring
        = (Inl ValueError, Some offspring))
   \<and> (0 \<le> population_size \<and> population_size \<le> int (length offspring) \<and> evaluated offspring \<longrightarrow>
      CommaSelection_call population_size old_population offspring
        = (Inr (take (nat population_size) (sort_desc offspring)), Some (sort_desc offspring))
      \<and> length (take (nat population_size) (sort_desc offspring)) = nat population_size
      \<and> mset (sort_desc offspring) = mset offspring
      \<and> fitness_descending (sort_desc offspring)
      \<and> CommaSelection_call population_size other_population offspring
          = CommaSelection_call population_size old_population offspring)"
  by (auto simp: CommaSelection_call_def py_sort_evaluated py_prefix_def mset_sort_desc
      fitness_descending_sort_desc length_sort_desc)

theorem C4_comma_selection_witness:
  "CommaSelection_call 2 [] [\<lparr>genotype = [1::int], fitness = Some 1, age = 0\<rparr>]
     = (Inl ValueError, Some [\<lparr>genotype = [1::int], fitness = Some 1, age = 0\<rparr>])
   \<and> CommaSelection_call 1 [\<lparr>genotype = [3::int], fitness = Some 9, age = 1\<rparr>]
        [\<lparr>genotype = [1::int], fitness = Some 1, age = 0\<rparr>,
         \<lparr>genotype = [2::int], fitness = Some 2, age = 0\<rparr>]
     = (Inr [\<lparr>genotype = [2::int], fitness = Some 2, age = 0\<rparr>],
        Some [\<lparr>genotype = [2::int], fitness = Some 2, age = 0\<rparr>,
              \<lparr>genotype = [1::int], fitness = Some 1, age = 0\<rparr>])"
  using C4_comma_selection [of "[\<lparr>genotype = [1::int], fitness = Some 1, age = 0\<rparr>]" 2 "[]" "[]"]
    C4_comma_selection [of "[\<lparr>genotype = [1::int], fitness = Some 1, age = 0\<rparr>,
         \<lparr>genotype = [2::int], fitness = Some 2, age = 0\<rparr>]" 1
         "[\<lparr>genotype = [3::int], fitness = Some 9, age = 1\<rparr>]" "[]"]
  by (simp add: evaluated_def sort_desc_def fitness_key_def)






section \<open>Sampling and mutation\<close>


lemma mset_snoc: "mset (xs @ [x]) = add_mset x (mset xs)"
  by simp

lemma mset_pool_step:
  assumes "j < length pool"
  shows "mset (butlast (pool[j := last pool])) = mset pool - {#pool ! j#}"
proof -
  have ne: "pool \<noteq> []" using assms by auto
  let ?xs = "pool[j := last pool]"
  have xs_ne: "?xs \<noteq> []" using ne by simp
  have last_xs: "last ?xs = last pool"
    using ne assms by (cases "j = length pool - 1") (simp_all add: last_list_update last_conv_nth)
  have "mset ?xs = mset (butlast ?xs @ [last ?xs])" using xs_ne by simp
  also have "\<dots> = add_mset (last ?xs) (mset (butlast ?xs))" by (rule mset_snoc)
  finally have a: "mset (butlast ?xs) = mset ?xs - {#last pool#}"
    using last_xs by simp
  have b: "mset ?xs = add_mset (last pool) (mset pool - {#pool ! j#})"
    using assms by (rule mset_update)
  show ?thesis using a b by simp
qed

lemma sample_pool_props:
  "k \<le> length pool \<Longrightarrow>
   length (sample_pool pool k rnd i) = k \<and> mset (sample_pool pool k rnd i) \<subseteq># mset pool"
proof (induction k arbitrary: pool i)
  case 0
  then show ?case by simp
next
  case (Suc k)
  let ?j = "rnd i mod length pool"
  let ?pool' = "butlast (pool[?j := last pool])"
  have pos: "0 < length pool" using Suc.prems by (cases pool) auto
  then have j: "?j < length pool" by simp
  have len': "k \<le> length ?pool'" using Suc.prems by simp
  have ms: "mset ?pool' = mset pool - {#pool ! ?j#}" using j by (rule mset_pool_step)
  have mem: "pool ! ?j \<in># mset pool" using j by simp
  from Suc.IH [OF len', of "Suc i"]
  have ih: "length (sample_pool ?pool' k rnd (Suc i)) = k"
    "mset (sample_pool ?pool' k rnd (Suc i)) \<subseteq># mset pool - {#pool ! ?j#}"
    using ms by simp_all
  have "add_mset (pool ! ?j) (mset (sample_pool ?pool' k rnd (Suc i)))
          \<subseteq># add_mset (pool ! ?j) (mset pool - {#pool ! ?j#})"
    using ih(2) by simp
  also have "add_mset (pool ! ?j) (mset pool - {#pool ! ?j#}) = mset pool"
    using mem by simp
  finally show ?case using ih(1) by (simp add: Let_def)
qed

lemma distinct_submset:
  assumes "mset xs \<subseteq># mset ys" "distinct ys"
  shows "distinct xs"
proof -
  have le1: "count (mset xs) a \<le> 1" for a
  proof -
    have "count (mset xs) a \<le> count (mset ys) a" using assms(1) by (rule mset_subset_eq_count)
    also have "\<dots> \<le> 1" using assms(2) by (simp add: distinct_count_atmost_1)
    finally show ?thesis .
  qed
  have "count (mset xs) a = (if a \<in> set xs then 1 else 0)" for a
  proof (cases "a \<in> set xs")
    case True
    then have "count (mset xs) a \<noteq> 0" by (simp add: count_eq_zero_iff)
    with le1 [of a] have "count (mset xs) a = 1" by arith
    with True show ?thesis by simp
  next
    case False
    then have "count (mset xs) a = 0" by (simp add: count_eq_zero_iff)
    with False show ?thesis by simp
  qed
  then show ?thesis by (simp only: distinct_count_atmost_1) simp
qed

lemma sample_pool_subset:
  assumes "k \<le> length pool"
  shows "set (sample_pool pool k rnd i) \<subseteq> set pool"
proof -
  have "mset (sample_pool pool k rnd i) \<subseteq># mset pool"
    using sample_pool_props [OF assms] by simp
  then have "set_mset (mset (sample_pool pool k rnd i)) \<subseteq> set_mset (mset pool)"
    by (rule set_mset_mono)
  then show ?thesis by simp
qed

lemma random_sample_range_2:
  assumes "2 \<le> n"
  shows "\<exists>i j. random_sample [0..<n] 2 rnd = Inr [i, j] \<and> i < n \<and> j < n \<and> i \<noteq> j"
proof -
  let ?s = "sample_pool [0..<n] 2 rnd 0"
  have le: "2 \<le> length [0..<n]" using assms by simp
  have len: "length ?s = 2" using sample_pool_props [OF le] by simp
  then obtain i j where s: "?s = [i, j]"
    by (cases ?s; cases "tl ?s") auto
  have "set ?s \<subseteq> set [0..<n]" using le by (rule sample_pool_subset)
  then have r: "i < n" "j < n" using s by simp_all
  have "mset ?s \<subseteq># mset [0..<n]" using sample_pool_props [OF le] by simp
  then have "distinct ?s" by (rule distinct_submset) simp
  then have "i \<noteq> j" using s by simp
  moreover have "random_sample [0..<n] 2 rnd = Inr ?s"
    using assms by (simp add: random_sample_def)
  ultimately show ?thesis using s r by simp
qed

lemma mset_swap_genes:
  assumes "i < length g" "j < length g"
  shows "mset (swap_genes g i j) = mset g"
  using mset_swap [OF assms(2,1)] by (simp add: swap_genes_def)

lemma mset_invert_span: "mset (invert_span g i j) = mset g"
proof -
  let ?s = "min i j"
  let ?e = "max i j + 1"
  have "g = take ?s g @ py_slice g ?s ?e @ drop (?e - ?s) (drop ?s g)"
    by (simp only: py_slice_def append_take_drop_id)
  moreover have "drop (?e - ?s) (drop ?s g) = drop (max ?s ?e) g"
    by (simp add: max_def min_def)
  ultimately have "mset g = mset (take ?s g) + mset (py_slice g ?s ?e) + mset (drop (max ?s ?e) g)"
    by (metis mset_append add.assoc)
  then show ?thesis
    by (simp add: invert_span_def py_slice_assign_def Let_def)
qed

lemma same_genes_refl: "same_genes heap heap"
  by (simp add: same_genes_def)

lemma same_genes_update:
  assumes "same_genes heap0 heap" "mset g = mset (heap ind)" "2 \<le> length (heap ind)"
  shows "same_genes heap0 (heap(ind := g))"
proof -
  have "length (heap ind) = length (heap0 ind)"
    using assms(1) by (metis same_genes_def size_mset)
  then show ?thesis using assms by (auto simp: same_genes_def)
qed

lemma SwapMutation_loop_same_genes:
  "same_genes heap0 heap \<Longrightarrow>
   \<exists>heap'. SwapMutation_loop prob coin rnd n heap offspring = Inr heap' \<and> same_genes heap0 heap'"
proof (induction offspring arbitrary: heap n)
  case Nil
  then show ?case by simp
next
  case (Cons ind rest)
  show ?case
  proof (cases "coin n < prob \<and> 2 \<le> length (heap ind)")
    case True
    then obtain i j where s: "random_sample [0..<length (heap ind)] 2 (rnd n) = Inr [i, j]"
        "i < length (heap ind)" "j < length (heap ind)"
      using random_sample_range_2 [of "length (heap ind)" "rnd n"] by blast
    have "same_genes heap0 (heap(ind := swap_genes (heap ind) i j))"
      using Cons.prems mset_swap_genes [OF s(2,3)] True by (intro same_genes_update) simp_all
    from Cons.IH [OF this, of "Suc n"] obtain heap' where
      h: "SwapMutation_loop prob coin rnd (Suc n) (heap(ind := swap_genes (heap ind) i j)) rest = Inr heap'"
         "same_genes heap0 heap'"
      by blast
    have "SwapMutation_loop prob coin rnd n heap (ind # rest) = Inr heap'"
      using True s(1) h(1) by (simp add: Let_def)
    with h(2) show ?thesis by blast
  next
    case False
    from Cons.IH [OF Cons.prems, of "Suc n"] show ?thesis
      using False by (auto simp: Let_def)
  qed
qed

lemma InversionMutation_loop_same_genes:
  "same_genes heap0 heap \<Longrightarrow>
   \<exists>heap'. InversionMutation_loop prob coin rnd n heap offspring = Inr heap'
            \<and> same_genes heap0 heap'"
proof (induction offspring arbitrary: heap n)
  case Nil
  then show ?case by simp
next
  case (Cons ind rest)
  show ?case
  proof (cases "coin n < prob \<and> 2 \<le> length (heap ind)")
    case True
    then obtain i j where s: "random_sample [0..<length (heap ind)] 2 (rnd n) = Inr [i, j]"
      using random_sample_range_2 [of "length (heap ind)" "rnd n"] by blast
    have "same_genes heap0 (heap(ind := invert_span (heap ind) i j))"
      using Cons.prems mset_invert_span [of "heap ind" i j] True
      by (intro same_genes_update) simp_all
    from Cons.IH [OF this, of "Suc n"] obtain heap' where
      h: "InversionMutation_loop prob coin rnd (Suc n) (heap(ind := invert_span (heap ind) i j)) rest = Inr heap'"
         "same_genes heap0 heap'"
      by blast
    have "InversionMutation_loop prob coin rnd n heap (ind # rest) = Inr heap'"
      using True s(1) h(1) by (simp add: Let_def)
    with h(2) show ?thesis by blast
  next
    case False
    from Cons.IH [OF Cons.prems, of "Suc n"] show ?thesis
      using False by (auto simp: Let_def)
  qed
qed


text \<open>
  C6: a call of swap mutation or of inversion mutation returns, and leaves every genotype
  in the store with the gene multiset it had before; a genotype of length below 2 is left
  as it was, whatever the random draws.
\<close>

theorem C6_mutation_preserves_genes:
  "(\<exists>heap'. SwapMutation_call prob_schedule current_generation coin rnd heap offspring = Inr heap'
       \<and> (\<forall>a. mset (heap' a) = mset (heap a))
       \<and> (\<forall>a. length (heap a) < 2 \<longrightarrow> heap' a = heap a))
   \<and> (\<exists>heap'. InversionMutation_call prob_schedule current_generation coin rnd heap offspring
                 = Inr heap'
       \<and> (\<forall>a. mset (heap' a) = mset (heap a))
       \<and> (\<forall>a. length (heap a) < 2 \<longrightarrow> heap' a = heap a))"
proof
  obtain heap' where
    "SwapMutation_call prob_schedule current_generation coin rnd heap offspring = Inr heap'"
    "same_genes heap heap'"
    using SwapMutation_loop_same_genes [OF same_genes_refl] unfolding SwapMutation_call_def
    by blast
  then show "\<exists>heap'. SwapMutation_call prob_schedule current_generation coin rnd heap offspring
                 = Inr heap'
       \<and> (\<forall>a. mset (heap' a) = mset (heap a))
       \<and> (\<forall>a. length (heap a) < 2 \<longrightarrow> heap' a = heap a)"
    unfolding same_genes_def by blast
next
  obtain heap' where
    "InversionMutation_call prob_schedule current_generation coin rnd heap offspring = Inr heap'"
    "same_genes heap heap'"
    using InversionMutation_loop_same_genes [OF same_genes_refl]
    unfolding InversionMutation_call_def by blast
  then show "\<exists>heap'. InversionMutation_call prob_schedule current_generation coin rnd heap offspring
                 = Inr heap'
       \<and> (\<forall>a. mset (heap' a) = mset (heap a))
       \<and> (\<forall>a. length (heap a) < 2 \<longrightarrow> heap' a = heap a)"
    unfolding same_genes_def by blast
qed

theorem C6_mutation_preserves_genes_witness:
  "(\<exists>heap'. SwapMutation_call (Fixed 1) 0 (\<lambda>n. 0) (\<lambda>n i. 0)
               (\<lambda>a. if a = 0 then [1, 2, 3 :: int] else [7]) [0, 1] = Inr heap'
       \<and> mset (heap' 0) = mset [1, 2, 3] \<and> heap' 1 = [7])
   \<and> (\<exists>heap'. InversionMutation_call (Fixed 1) 0 (\<lambda>n. 0) (\<lambda>n i. 0)
               (\<lambda>a. if a = 0 then [1, 2, 3 :: int] else [7]) [0, 1] = Inr heap'
       \<and> mset (heap' 0) = mset [1, 2, 3] \<and> heap' 1 = [7])"
proof -
  let ?H = "\<lambda>a::nat. if a = 0 then [1, 2, 3 :: int] else [7]"
  note t = C6_mutation_preserves_genes [of "Fixed 1" 0 "\<lambda>n. 0" "\<lambda>n i. 0" ?H "[0, 1]"]
  from t obtain h1 where h1:
    "SwapMutation_call (Fixed 1) 0 (\<lambda>n. 0) (\<lambda>n i. 0) ?H [0, 1] = Inr h1"
    "\<forall>a. mset (h1 a) = mset (?H a)" "\<forall>a. length (?H a) < 2 \<longrightarrow> h1 a = ?H a"
    by blast
  from t obtain h2 where h2:
    "InversionMutation_call (Fixed 1) 0 (\<lambda>n. 0) (\<lambda>n i. 0) ?H [0, 1] = Inr h2"
    "\<forall>a. mset (h2 a) = mset (?H a)" "\<forall>a. length (?H a) < 2 \<longrightarrow> h2 a = ?H a"
    by blast
  have "mset (h1 0) = mset [1, 2, 3]" "h1 1 = [7]"
    using h1(2) [rule_format, of 0] h1(3) [rule_format, of 1] by simp_all
  moreover have "mset (h2 0) = mset [1, 2, 3]" "h2 1 = [7]"
    using h2(2) [rule_format, of 0] h2(3) [rule_format, of 1] by simp_all
  ultimately show ?thesis using h1(1) h2(1) by blast
qed

section \<open>Tournament selection\<close>


lemma foldl_max_fitness:
  "foldl (\<lambda>best y. if fitness_key best < fitness_key y then y else best) x rest \<in> set (x # rest)
   \<and> (\<forall>y \<in> set (x # rest).
         fitness_key y
           \<le> fitness_key (foldl (\<lambda>best y. if fitness_key best < fitness_key y then y else best) x rest))"
proof (induction rest arbitrary: x)
  case Nil
  then show ?case by simp
next
  case (Cons z rest)
  let ?f = "\<lambda>best y. if fitness_key best < fitness_key y then y else best"
  show ?case
  proof (cases "fitness_key x < fitness_key z")
    case True
    with Cons.IH [of z] show ?thesis by fastforce
  next
    case False
    with Cons.IH [of x] show ?thesis by fastforce
  qed
qed

lemma py_max_by_fitness_evaluated:
  assumes "xs \<noteq> []" "evaluated xs"
  shows "\<exists>w. py_max_by_fitness xs = Inr w \<and> w \<in> set xs
             \<and> (\<forall>y \<in> set xs. fitness_key y \<le> fitness_key w)"
proof -
  obtain x rest where xs: "xs = x # rest" using assms(1) by (cases xs) auto
  let ?w = "foldl (\<lambda>best y. if fitness_key best < fitness_key y then y else best) x rest"
  have "py_max_by_fitness xs = Inr ?w"
    using assms(2) xs by (auto simp: py_max_by_fitness_def evaluated_def)
  then show ?thesis using foldl_max_fitness [of x rest] xs by blast
qed

lemma tournament_loop_fails:
  "int (length population) < k \<Longrightarrow> tournament_loop k rnd population t (Suc n) = Inl ValueError"
  by (simp add: random_sample_def)

lemma tournament_loop_returns:
  assumes "1 \<le> k" "k \<le> int (length population)" "evaluated population"
  shows "\<exists>parents. tournament_loop k rnd population t n = Inr parents
           \<and> length parents = n \<and> set parents \<subseteq> set population"
proof (induction n arbitrary: t)
  case 0
  then show ?case by simp
next
  case (Suc n)
  let ?c = "sample_pool population (nat k) (rnd t) 0"
  have le: "nat k \<le> length population" using assms by simp
  have s: "random_sample population k (rnd t) = Inr ?c"
    using assms by (simp add: random_sample_def)
  have len: "length ?c = nat k" using sample_pool_props [OF le] by simp
  then have ne: "?c \<noteq> []" using assms(1) by auto
  have sub: "set ?c \<subseteq> set population" using le by (rule sample_pool_subset)
  then have "evaluated ?c" using assms(3) by (auto simp: evaluated_def)
  from py_max_by_fitness_evaluated [OF ne this] obtain w where
    w: "py_max_by_fitness ?c = Inr w" "w \<in> set ?c" by blast
  from Suc.IH [of "Suc t"] obtain parents where
    p: "tournament_loop k rnd population (Suc t) n = Inr parents" "length parents = n"
       "set parents \<subseteq> set population" by blast
  have "tournament_loop k rnd population t (Suc n) = Inr (w # parents)"
    using s w(1) p(1) by simp
  then show ?case using p(2,3) w(2) sub by auto
qed

text \<open>
  C10: on a non-empty population smaller than \<open>k\<close> the call raises (the ValueError of
  \<open>random.sample\<close>, at the first tournament) instead of returning parents; the empty
  population alone is answered with the empty list; and with \<open>1 \<le> k \<le> |population|\<close> on an
  evaluated population the call returns \<open>|population|\<close> parents drawn from the population.
\<close>

theorem C10_tournament_small_population:
  "(population \<noteq> [] \<and> int (length population) < k \<longrightarrow>
      TournamentSelection_call k rnd population = Inl ValueError)
   \<and> TournamentSelection_call k rnd [] = Inr []
   \<and> (1 \<le> k \<and> k \<le> int (length population) \<and> evaluated population \<longrightarrow>
        (\<exists>parents. TournamentSelection_call k rnd population = Inr parents
           \<and> length parents = length population \<and> set parents \<subseteq> set population))"
proof (intro conjI impI)
  assume a: "population \<noteq> [] \<and> int (length population) < k"
  then obtain n where "length population = Suc n" by (cases population) auto
  then show "TournamentSelection_call k rnd population = Inl ValueError"
    using a tournament_loop_fails [of population k rnd 0 n]
    by (simp add: TournamentSelection_call_def)
next
  show "TournamentSelection_call k rnd [] = Inr []"
    by (simp add: TournamentSelection_call_def)
next
  assume a: "1 \<le> k \<and> k \<le> int (length population) \<and> evaluated population"
  then have "population \<noteq> []" by auto
  then show "\<exists>parents. TournamentSelection_call k rnd population = Inr parents
           \<and> length parents = length population \<and> set parents \<subseteq> set population"
    using a tournament_loop_returns [of k population rnd 0 "length population"]
    by (simp add: TournamentSelection_call_def)
qed

theorem C10_tournament_small_population_witness:
  "TournamentSelection_call 3 (\<lambda>t i. 0)
     [\<lparr>genotype = [1::int], fitness = Some 1, age = 0\<rparr>,
      \<lparr>genotype = [2::int], fitness = Some 2, age = 0\<rparr>] = Inl ValueError
   \<and> (\<exists>parents. TournamentSelection_call 2 (\<lambda>t i. 0)
     [\<lparr>genotype = [1::int], fitness = Some 1, age = 0\<rparr>,
      \<lparr>genotype = [2::int], fitness = Some 2, age = 0\<rparr>] = Inr parents
      \<and> length parents = 2)"
  using C10_tournament_small_population [of
     "[\<lparr>genotype = [1::int], fitness = Some 1, age = 0\<rparr>,
      \<lparr>genotype = [2::int], fitness = Some 2, age = 0\<rparr>]" 3 "\<lambda>t i. 0"]
    C10_tournament_small_population [of
     "[\<lparr>genotype = [1::int], fitness = Some 1, age = 0\<rparr>,
      \<lparr>genotype = [2::int], fitness = Some 2, age = 0\<rparr>]" 2 "\<lambda>t i. 0"]
  by (auto simp: evaluated_def)

section \<open>The engine: construction and statistics\<close>

lemma upto_1_2: "[1..2::int] = [1, 2]"
  by (simp add: upto_rec1)

lemma initialize_empty:
  assumes "population_size \<le> 0"
  shows "initialize evaluate_genotype create_genotype (new_engine population_size)
           = Inl ValueError"
  using assms by (simp add: initialize_def new_engine_def Let_def)

text \<open>
  C7 (as stated, refuted): constructing the engine with a non-positive population size is
  claimed to raise.  With \<open>population_size = 0\<close> the constructor returns the engine.
\<close>

theorem C7_engine_init_counterexample:
  "(EvolutionaryAlgorithm_init 0 :: error + int list engine)
     = Inr \<lparr>self_population_size = 0, self_population = [], self_current_generation = 0,
            self_best_individual = None,
            self_history = \<lparr>h_generation = [], h_best_fitness = [], h_mean_fitness = [],
                             h_std_fitness = [], h_worst_fitness = []\<rparr>,
            self_logger_calls = []\<rparr>"
  by (simp add: EvolutionaryAlgorithm_init_def new_engine_def)

text \<open>
  C7 (amended): \<open>TournamentSelection\<close> with \<open>k \<le> 0\<close> raises ValueError at construction.
  The engine's constructor validates nothing and returns an engine for every
  \<open>population_size\<close>; with \<open>population_size \<le> 0\<close> the error is raised by \<open>run\<close> on that
  engine (ValueError: the initial population is empty), before any generation and before
  any statistics step.
\<close>

theorem C7_configuration_errors:
  fixes evaluate_genotype :: "'g \<Rightarrow> real"
  shows "(k \<le> 0 \<longrightarrow> TournamentSelection_init k = Inl ValueError)
   \<and> (EvolutionaryAlgorithm_init population_size :: error + 'g engine)
        = Inr (new_engine population_size)
   \<and> (population_size \<le> 0 \<longrightarrow>
        run_trace evaluate_genotype create_genotype select_parents reproduce select_survivors
          generations (new_engine population_size) = ([], Some ValueError)
        \<and> run evaluate_genotype create_genotype select_parents reproduce select_survivors
          generations (new_engine population_size) = Inl ValueError)"
  by (simp add: TournamentSelection_init_def EvolutionaryAlgorithm_init_def run_trace_def
      run_def initialize_empty)

theorem C7_configuration_errors_witness:
  "TournamentSelection_init 0 = Inl ValueError
   \<and> run (\<lambda>g. real_of_int (hd g)) (\<lambda>i. [int i]) (\<lambda>gen pop. Inr pop)
        (\<lambda>parents gen. Inr parents) (PlusSelection_call 0) 3 (new_engine 0) = Inl ValueError"
  using C7_configuration_errors [of 0 0 "\<lambda>g. real_of_int (hd g)" "\<lambda>i. [int i]"
      "\<lambda>gen pop. Inr pop" "\<lambda>parents gen. Inr parents" "PlusSelection_call 0" 3]
  by simp

text \<open>
  C9: with an empty live population, or one in which no candidate has a fitness value,
  \<open>_update_history_and_log\<close> returns the engine as it was: nothing is appended to any of
  the five History lists and the logger is not called.  History can therefore have gaps:
  in the run below generation 1 leaves the population empty, and the generations recorded
  after generations 0, 1 and 2 are [0], [0] and [0, 2].
\<close>

theorem C9_statistics_noop:
  "(self_population e = [] \<or> (\<forall>ind \<in> set (self_population e). fitness ind = None) \<longrightarrow>
      update_history_and_log generation e = Inr e)
   \<and> map (\<lambda>e. h_generation (self_history e))
       (fst (run_trace (\<lambda>g. real_of_int (hd g)) (\<lambda>i. [int i]) (\<lambda>gen pop. Inr pop)
          (\<lambda>parents gen. Inr (if gen = 1 then [] else [Individual [7]]))
          (PlusAgeBasedSelection_call 2 0) 2 (new_engine 2)))
     = [[0], [0], [0, 2]]"
proof
  show "self_population e = [] \<or> (\<forall>ind \<in> set (self_population e). fitness ind = None) \<longrightarrow>
      update_history_and_log generation e = Inr e"
    by (auto simp: update_history_and_log_def Let_def filter_empty_conv)
next
  show "map (\<lambda>e. h_generation (self_history e))
       (fst (run_trace (\<lambda>g. real_of_int (hd g)) (\<lambda>i. [int i]) (\<lambda>gen pop. Inr pop)
          (\<lambda>parents gen. Inr (if gen = 1 then [] else [Individual [7]]))
          (PlusAgeBasedSelection_call 2 0) 2 (new_engine 2)))
     = [[0], [0], [0, 2]]"
  by (auto simp add: new_engine_def run_trace_def initialize_def Let_def
      Individual_def update_best_def update_history_and_log_def py_max_by_fitness_def
      generation_step_def PlusAgeBasedSelection_call_def age_eligible_def
      py_sort_by_fitness_desc_def sort_desc_def py_prefix_def fitness_key_def upto_1_2
      eval_nat_numeral)
qed

theorem C9_statistics_noop_witness:
  "update_history_and_log 4
     (new_engine 2 :: int list engine) = Inr (new_engine 2)
   \<and> update_history_and_log 4
     ((new_engine 2) \<lparr>self_population := [Individual [1::int]]\<rparr>)
       = Inr ((new_engine 2) \<lparr>self_population := [Individual [1::int]]\<rparr>)"
  using C9_statistics_noop [of "new_engine 2 :: int list engine" 4]
    C9_statistics_noop [of "(new_engine 2) \<lparr>self_population := [Individual [1::int]]\<rparr>" 4]
  by (simp add: new_engine_def Individual_def)

section \<open>The engine: elitism under plus selection\<close>


lemma update_best_ok:
  assumes "fitness ind \<noteq> None" "best_wf best"
  shows "\<exists>b'. update_best best ind = Inr (Some b') \<and> fitness b' \<noteq> None
           \<and> (\<forall>b. best = Some b \<longrightarrow> fitness_key b \<le> fitness_key b')"
  using assms
  by (auto simp: update_best_def best_wf_def fitness_key_def split: option.splits)

lemma evaluate_population_ok:
  "best_wf best \<Longrightarrow>
   \<exists>xs' best'. evaluate_population f best xs = Inr (xs', best')
      \<and> evaluated xs' \<and> length xs' = length xs \<and> best_wf best'
      \<and> (\<forall>b. best = Some b \<longrightarrow> (\<exists>b'. best' = Some b' \<and> fitness_key b \<le> fitness_key b'))
      \<and> (best = None \<and> best' \<noteq> None \<longrightarrow> xs \<noteq> [])"
proof (induction xs arbitrary: best)
  case Nil
  then show ?case by (cases best) (simp_all add: evaluated_def)
next
  case (Cons ind rest)
  show ?case
  proof (cases "fitness ind = None")
    case True
    let ?ind = "ind\<lparr>fitness := Some (f (genotype ind))\<rparr>"
    have "fitness ?ind \<noteq> None" by simp
    from update_best_ok [OF this Cons.prems] obtain b1 where
      b1: "update_best best ?ind = Inr (Some b1) \<and> fitness b1 \<noteq> None
          \<and> (\<forall>b. best = Some b \<longrightarrow> fitness_key b \<le> fitness_key b1)"
      by (elim exE)
    have "best_wf (Some b1)" using b1 by (simp add: best_wf_def)
    from Cons.IH [OF this] obtain xs' best' where
      r0: "evaluate_population f (Some b1) rest = Inr (xs', best')
         \<and> evaluated xs' \<and> length xs' = length rest \<and> best_wf best'
         \<and> (\<forall>b. Some b1 = Some b \<longrightarrow> (\<exists>b'. best' = Some b' \<and> fitness_key b \<le> fitness_key b'))
         \<and> (Some b1 = None \<and> best' \<noteq> None \<longrightarrow> rest \<noteq> [])"
      by (elim exE)
    from r0 obtain b2 where b2: "best' = Some b2" "fitness_key b1 \<le> fitness_key b2"
      by auto
    have run: "evaluate_population f best (ind # rest) = Inr (?ind # xs', best')"
      using True b1 r0 by (simp add: Let_def)
    have ev: "evaluated (?ind # xs')" using r0 by (simp add: evaluated_def)
    have mono: "\<forall>b. best = Some b \<longrightarrow> (\<exists>b'. best' = Some b' \<and> fitness_key b \<le> fitness_key b')"
    proof (intro allI impI)
      fix b assume "best = Some b"
      then have "fitness_key b \<le> fitness_key b1" using b1 by simp
      then have "fitness_key b \<le> fitness_key b2" using b2(2) by (rule order_trans)
      then show "\<exists>b'. best' = Some b' \<and> fitness_key b \<le> fitness_key b'"
        using b2(1) by simp
    qed
    have len: "length (?ind # xs') = length (ind # rest)" and wf: "best_wf best'"
      using r0 by simp_all
    have ne: "ind # rest \<noteq> []" by simp
    have "evaluate_population f best (ind # rest) = Inr (?ind # xs', best')
      \<and> evaluated (?ind # xs') \<and> length (?ind # xs') = length (ind # rest) \<and> best_wf best'
      \<and> (\<forall>b. best = Some b \<longrightarrow> (\<exists>b'. best' = Some b' \<and> fitness_key b \<le> fitness_key b'))
      \<and> (best = None \<and> best' \<noteq> None \<longrightarrow> ind # rest \<noteq> [])"
      by (intro conjI impI run ev len wf mono ne)
    then show ?thesis by (intro exI)
  next
    case False
    from Cons.IH [OF Cons.prems] obtain xs' best' where
      r0: "evaluate_population f best rest = Inr (xs', best')
         \<and> evaluated xs' \<and> length xs' = length rest \<and> best_wf best'
         \<and> (\<forall>b. best = Some b \<longrightarrow> (\<exists>b'. best' = Some b' \<and> fitness_key b \<le> fitness_key b'))
         \<and> (best = None \<and> best' \<noteq> None \<longrightarrow> rest \<noteq> [])"
      by (elim exE)
    have run: "evaluate_population f best (ind # rest) = Inr (ind # xs', best')"
      using False r0 by (simp del: not_None_eq)
    have ev: "evaluated (ind # xs')" using r0 False by (simp add: evaluated_def)
    have len: "length (ind # xs') = length (ind # rest)" and wf: "best_wf best'"
      and mono: "\<forall>b. best = Some b \<longrightarrow> (\<exists>b'. best' = Some b' \<and> fitness_key b \<le> fitness_key b')"
      using r0 by simp_all
    have ne: "ind # rest \<noteq> []" by simp
    have "evaluate_population f best (ind # rest) = Inr (ind # xs', best')
      \<and> evaluated (ind # xs') \<and> length (ind # xs') = length (ind # rest) \<and> best_wf best'
      \<and> (\<forall>b. best = Some b \<longrightarrow> (\<exists>b'. best' = Some b' \<and> fitness_key b \<le> fitness_key b'))
      \<and> (best = None \<and> best' \<noteq> None \<longrightarrow> ind # rest \<noteq> [])"
      by (intro conjI impI run ev len wf mono ne)
    then show ?thesis by (intro exI)
  qed
qed

lemma update_history_and_log_frame:
  assumes "update_history_and_log generation e = Inr e'"
  shows "self_population e' = self_population e"
    and "self_best_individual e' = self_best_individual e"
  using assms
  by (auto simp: update_history_and_log_def Let_def split: if_splits sum.splits)

lemma generation_step_Inr:
  assumes "generation_step f sp rp ss gen e = Inr e'"
  obtains offspring offspring' best survivors where
    "evaluate_population f (self_best_individual e) offspring = Inr (offspring', best)"
    "ss (map (\<lambda>ind. ind\<lparr>age := age ind + 1\<rparr>) (self_population e)) offspring' = Inr survivors"
    "self_population e' = survivors"
    "self_best_individual e' = best"
proof -
  from assms obtain offspring offspring' best survivors e'' where
    s: "evaluate_population f (self_best_individual e) offspring = Inr (offspring', best)"
       "ss (map (\<lambda>ind. ind\<lparr>age := age ind + 1\<rparr>) (self_population e)) offspring' = Inr survivors"
       "update_history_and_log gen e'' = Inr e'"
       "self_population e'' = survivors" "self_best_individual e'' = best"
    by (auto simp: generation_step_def Let_def split: sum.splits prod.splits)
  from update_history_and_log_frame [OF s(3)] s(4,5)
  have "self_population e' = survivors" "self_best_individual e' = best" by simp_all
  with s(1,2) show ?thesis by (rule that)
qed

lemma generation_step_tracker:
  assumes "generation_step f sp rp ss gen e = Inr e'" "tracker_ok e"
  shows "tracker_ok e' \<and> tracker_fitness e \<le> tracker_fitness e'"
proof -
  from assms(1) obtain offspring offspring' best where
    s: "evaluate_population f (self_best_individual e) offspring = Inr (offspring', best)"
       "self_best_individual e' = best"
    by (rule generation_step_Inr)
  from assms(2) obtain b where b: "self_best_individual e = Some b" "fitness b \<noteq> None"
    by (auto simp: tracker_ok_def split: option.splits)
  then have "best_wf (self_best_individual e)" by (simp add: best_wf_def)
  from evaluate_population_ok [OF this, of f offspring] s(1) b(1)
  obtain b' where "best = Some b'" "fitness_key b \<le> fitness_key b'" "best_wf best" by auto
  then show ?thesis using s(2) b(1)
    by (simp add: tracker_ok_def tracker_fitness_def best_wf_def)
qed


lemma np_max_Max:
  assumes "xs \<noteq> []"
  shows "np_max xs = Max (set xs)"
proof -
  obtain a list where xs: "xs = a # list" using assms by (cases xs) auto
  have "np_max (a # list) = fold max list a" by (simp add: np_max_def)
  also have "\<dots> = Max (set (a # list))" by (rule Max.set_eq_fold [symmetric])
  finally show ?thesis by (simp only: xs)
qed

lemma fitness_descending_hd:
  assumes "fitness_descending xs" "x \<in> set xs"
  shows "fitness_key x \<le> fitness_key (hd xs)"
  using assms by (cases xs) (auto simp: fitness_descending_def)

lemma population_best_ge:
  assumes "self_population e \<noteq> []" "x \<in> set (self_population e)"
  shows "fitness_key x \<le> population_best e"
  using assms by (simp add: population_best_def np_max_Max)

lemma population_best_le:
  assumes "self_population e \<noteq> []" "\<forall>x \<in> set (self_population e). fitness_key x \<le> c"
  shows "population_best e \<le> c"
  using assms by (simp add: population_best_def np_max_Max)

lemma PlusSelection_call_elitist:
  assumes "1 \<le> mu" "old \<noteq> []" "evaluated old" "evaluated offspring"
  shows "\<exists>survivors. PlusSelection_call mu old offspring = Inr survivors
           \<and> survivors \<noteq> [] \<and> evaluated survivors
           \<and> (\<forall>x \<in> set old. fitness_key x \<le> fitness_key (hd survivors))"
proof -
  let ?all = "old @ offspring"
  let ?s = "sort_desc ?all"
  have ev: "evaluated ?all" using assms(3,4) by (auto simp: evaluated_def)
  have call: "PlusSelection_call mu old offspring = Inr (take (nat mu) ?s)"
    using assms(1) py_sort_evaluated [OF ev]
    by (simp add: PlusSelection_call_def Let_def py_prefix_nonneg)
  have ne: "?s \<noteq> []" using assms(2) length_sort_desc [of ?all] by (cases ?s) auto
  have pos: "0 < nat mu" using assms(1) by simp
  have tne: "take (nat mu) ?s \<noteq> []" using ne pos by (cases ?s; cases "nat mu") auto
  have hd_eq: "hd (take (nat mu) ?s) = hd ?s" using pos by (cases ?s; cases "nat mu") auto
  have "set (take (nat mu) ?s) \<subseteq> set ?all"
    using set_take_subset [of "nat mu" ?s] set_sort_desc [of ?all] by simp
  then have tev: "evaluated (take (nat mu) ?s)" using ev by (auto simp: evaluated_def)
  have "fitness_key x \<le> fitness_key (hd ?s)" if "x \<in> set old" for x
  proof -
    have "x \<in> set ?s" using that by (simp add: set_sort_desc)
    with fitness_descending_sort_desc [of ?all] show ?thesis by (rule fitness_descending_hd)
  qed
  then show ?thesis using call tne tev hd_eq by simp
qed

lemma generation_step_population:
  assumes step: "generation_step f sp rp (PlusSelection_call mu) gen e = Inr e'"
    and "1 \<le> mu" "tracker_ok e" "live_ok e"
  shows "live_ok e' \<and> population_best e \<le> population_best e'"
proof -
  let ?aged = "map (\<lambda>ind. ind\<lparr>age := age ind + 1\<rparr>) (self_population e)"
  from step obtain offspring offspring' best survivors where
    s: "evaluate_population f (self_best_individual e) offspring = Inr (offspring', best)"
       "PlusSelection_call mu ?aged offspring' = Inr survivors"
       "self_population e' = survivors"
    by (rule generation_step_Inr)
  have "best_wf (self_best_individual e)"
    using assms(3) by (auto simp: tracker_ok_def best_wf_def split: option.splits)
  from evaluate_population_ok [OF this, of f offspring] s(1)
  have evo: "evaluated offspring'" by auto
  have ane: "?aged \<noteq> []" using assms(4) by (simp add: live_ok_def)
  have aev: "evaluated ?aged" using assms(4) by (auto simp: live_ok_def evaluated_def)
  from PlusSelection_call_elitist [OF assms(2) ane aev evo] obtain sv' where
    sv': "PlusSelection_call mu ?aged offspring' = Inr sv'" "sv' \<noteq> []" "evaluated sv'"
    "\<forall>x \<in> set ?aged. fitness_key x \<le> fitness_key (hd sv')"
    by blast
  from sv'(1) s(2) have "sv' = survivors" by simp
  with sv'(2,3,4) have sv: "survivors \<noteq> []" "evaluated survivors"
    "\<forall>x \<in> set ?aged. fitness_key x \<le> fitness_key (hd survivors)"
    by simp_all
  have live: "live_ok e'" using sv(1,2) s(3) by (simp add: live_ok_def)
  have "hd survivors \<in> set (self_population e')" using sv(1) s(3) by simp
  then have top: "fitness_key (hd survivors) \<le> population_best e'"
    using sv(1) s(3) by (simp add: population_best_ge)
  have "\<forall>x \<in> set (self_population e). fitness_key x \<le> population_best e'"
  proof
    fix x assume "x \<in> set (self_population e)"
    then have "x\<lparr>age := age x + 1\<rparr> \<in> set ?aged" by simp
    with sv(3) have "fitness_key (x\<lparr>age := age x + 1\<rparr>) \<le> fitness_key (hd survivors)"
      by blast
    then have "fitness_key x \<le> fitness_key (hd survivors)" by (simp add: fitness_key_def)
    then show "fitness_key x \<le> population_best e'" using top by (rule order_trans)
  qed
  then have "population_best e \<le> population_best e'"
    using assms(4) by (simp add: population_best_le live_ok_def)
  with live show ?thesis by simp
qed


lemma evaluate_population_None:
  "\<exists>xs' best'. evaluate_population f None xs = Inr (xs', best')
      \<and> evaluated xs' \<and> length xs' = length xs \<and> best_wf best'
      \<and> (best' \<noteq> None \<longrightarrow> xs \<noteq> [])"
  using evaluate_population_ok [of None f xs] by (simp add: best_wf_def)

lemma initialize_ok:
  assumes "initialize f c (new_engine ps) = Inr e0"
  shows "tracker_ok e0 \<and> live_ok e0"
proof -
  let ?xs = "map Individual (map c [0..<nat ps])"
  from assms obtain pop best e'' where
    s: "evaluate_population f None ?xs = Inr (pop, best)" "best \<noteq> None"
       "update_history_and_log 0 e'' = Inr e0"
       "self_population e'' = pop" "self_best_individual e'' = best"
    by (auto simp: initialize_def new_engine_def Let_def split: sum.splits prod.splits if_splits)
  from evaluate_population_None [of f ?xs] obtain xs' best' where
    r0: "evaluate_population f None ?xs = Inr (xs', best')
         \<and> evaluated xs' \<and> length xs' = length ?xs \<and> best_wf best'
         \<and> (best' \<noteq> None \<longrightarrow> ?xs \<noteq> [])"
    by (elim exE)
  from r0 s(1) have eq: "xs' = pop" "best' = best" by simp_all
  have ev: "evaluated pop" and wfb: "best_wf best" using r0 eq by simp_all
  have "?xs \<noteq> []" using r0 eq s(2) by simp
  then have "length pop \<noteq> 0" using r0 eq by simp
  then have ne: "pop \<noteq> []" by simp
  from update_history_and_log_frame [OF s(3)] s(4,5)
  have e0: "self_population e0 = pop" "self_best_individual e0 = best" by simp_all
  have "tracker_ok e0" using e0(2) s(2) wfb by (auto simp: tracker_ok_def best_wf_def)
  moreover have "live_ok e0" using e0(1) ne ev by (simp add: live_ok_def)
  ultimately show ?thesis by simp
qed

lemma fst_evolve_Cons:
  "fst (evolve f sp rp ss (gen # gens) e) =
     (case generation_step f sp rp ss gen e of
        Inl err \<Rightarrow> []
      | Inr e' \<Rightarrow> e' # fst (evolve f sp rp ss gens e'))"
  by (simp split: sum.splits prod.splits)

lemma evolve_sorted_tracker:
  "tracker_ok e \<Longrightarrow> sorted (map tracker_fitness (e # fst (evolve f sp rp ss gens e)))"
proof (induction gens arbitrary: e)
  case Nil
  then show ?case by simp
next
  case (Cons gen gens)
  show ?case
  proof (cases "generation_step f sp rp ss gen e")
    case (Inl err)
    then show ?thesis by (simp add: fst_evolve_Cons del: evolve.simps)
  next
    case (Inr e')
    from generation_step_tracker [OF Inr Cons.prems]
    have t: "tracker_ok e'" "tracker_fitness e \<le> tracker_fitness e'" by simp_all
    from Cons.IH [OF t(1)]
    have "sorted (map tracker_fitness (e' # fst (evolve f sp rp ss gens e')))" .
    then have "sorted (map tracker_fitness (e # e' # fst (evolve f sp rp ss gens e')))"
      using t(2) by (simp only: list.map sorted2)
    then show ?thesis using Inr by (simp only: fst_evolve_Cons sum.case)
  qed
qed

lemma evolve_sorted_population:
  assumes "1 \<le> mu"
  shows "tracker_ok e \<Longrightarrow> live_ok e \<Longrightarrow>
     sorted (map population_best (e # fst (evolve f sp rp (PlusSelection_call mu) gens e)))
     \<and> (\<forall>e' \<in> set (e # fst (evolve f sp rp (PlusSelection_call mu) gens e)). live_ok e')"
proof (induction gens arbitrary: e)
  case Nil
  then show ?case by simp
next
  case (Cons gen gens)
  let ?ss = "PlusSelection_call mu"
  show ?case
  proof (cases "generation_step f sp rp ?ss gen e")
    case (Inl err)
    then show ?thesis using Cons.prems(2) by (simp add: fst_evolve_Cons del: evolve.simps)
  next
    case (Inr e')
    from generation_step_tracker [OF Inr Cons.prems(1)] have t: "tracker_ok e'" by simp
    from generation_step_population [OF Inr assms Cons.prems]
    have p: "live_ok e'" "population_best e \<le> population_best e'" by simp_all
    from Cons.IH [OF t p(1)]
    have ih: "sorted (map population_best (e' # fst (evolve f sp rp ?ss gens e')))"
      "\<forall>x \<in> set (e' # fst (evolve f sp rp ?ss gens e')). live_ok x" by simp_all
    have "sorted (map population_best (e # e' # fst (evolve f sp rp ?ss gens e')))"
      using ih(1) p(2) by (simp only: list.map sorted2)
    moreover have "\<forall>x \<in> set (e # e' # fst (evolve f sp rp ?ss gens e')). live_ok x"
      using ih(2) Cons.prems(2) by simp
    ultimately show ?thesis using Inr by (simp only: fst_evolve_Cons sum.case)
  qed
qed

lemma fst_run_trace:
  "fst (run_trace f c sp rp ss generations e) =
     (case initialize f c e of
        Inl err \<Rightarrow> []
      | Inr e0 \<Rightarrow> e0 # fst (evolve f sp rp ss [1..generations] e0))"
  by (simp add: run_trace_def split: sum.splits prod.splits)

text \<open>
  C5: in a run of a newly built engine with plus survivor selection, the fitness of the
  best-ever tracker, read after generation 0 and after each later generation, is a
  non-decreasing sequence: its value after a generation is at least its value after every
  earlier one.  When the population size of the plus selection is at least 1, the live
  population is never empty and its best fitness is non-decreasing from one generation to
  the next as well.  Both hold for every fitness function, initializer, parent selection
  and reproduction, and for the part of a run that precedes an exception.
\<close>

theorem C5_plus_selection_elitism:
  fixes evaluate_genotype :: "'g \<Rightarrow> real"
  shows "sorted (map tracker_fitness
           (fst (run_trace evaluate_genotype create_genotype select_parents reproduce
                   (PlusSelection_call mu) generations (new_engine population_size))))
       \<and> (1 \<le> mu \<longrightarrow>
            sorted (map population_best
              (fst (run_trace evaluate_genotype create_genotype select_parents reproduce
                      (PlusSelection_call mu) generations (new_engine population_size))))
            \<and> (\<forall>e \<in> set (fst (run_trace evaluate_genotype create_genotype select_parents
                      reproduce (PlusSelection_call mu) generations
                      (new_engine population_size))).
                  self_population e \<noteq> []))"
proof (cases "initialize evaluate_genotype create_genotype
                (new_engine population_size :: 'g engine)")
  case (Inl err)
  then show ?thesis by (simp only: fst_run_trace) simp
next
  case (Inr e0)
  let ?es = "e0 # fst (evolve evaluate_genotype select_parents reproduce (PlusSelection_call mu)
                 [1..generations] e0)"
  from initialize_ok [OF Inr] have ok: "tracker_ok e0" "live_ok e0" by simp_all
  have tr: "fst (run_trace evaluate_genotype create_genotype select_parents reproduce
                   (PlusSelection_call mu) generations (new_engine population_size)) = ?es"
    using Inr by (simp only: fst_run_trace sum.case)
  have a: "sorted (map tracker_fitness ?es)" using ok(1) by (rule evolve_sorted_tracker)
  have b: "sorted (map population_best ?es) \<and> (\<forall>e \<in> set ?es. self_population e \<noteq> [])"
    if "1 \<le> mu"
  proof -
    from evolve_sorted_population [OF that ok]
    have "sorted (map population_best ?es)" "\<forall>e \<in> set ?es. live_ok e" by simp_all
    then show ?thesis by (simp add: live_ok_def)
  qed
  show ?thesis unfolding tr using a b by blast
qed


theorem C5_plus_selection_elitism_witness:
  "map tracker_fitness
     (fst (run_trace (\<lambda>g. real_of_int (hd g)) (\<lambda>i. [int i]) (\<lambda>gen pop. Inr pop)
        (\<lambda>parents gen. Inr [Individual [gen + 5]]) (PlusSelection_call 2) 2 (new_engine 2)))
     = [1, 6, 7]
   \<and> sorted (map tracker_fitness
     (fst (run_trace (\<lambda>g. real_of_int (hd g)) (\<lambda>i. [int i]) (\<lambda>gen pop. Inr pop)
        (\<lambda>parents gen. Inr [Individual [gen + 5]]) (PlusSelection_call 2) 2 (new_engine 2))))
   \<and> sorted (map population_best
     (fst (run_trace (\<lambda>g. real_of_int (hd g)) (\<lambda>i. [int i]) (\<lambda>gen pop. Inr pop)
        (\<lambda>parents gen. Inr [Individual [gen + 5]]) (PlusSelection_call 2) 2 (new_engine 2))))"
proof -
  have "map tracker_fitness
     (fst (run_trace (\<lambda>g. real_of_int (hd g)) (\<lambda>i. [int i]) (\<lambda>gen pop. Inr pop)
        (\<lambda>parents gen. Inr [Individual [gen + 5]]) (PlusSelection_call 2) 2 (new_engine 2)))
     = [1, 6, 7]"
    by (auto simp add: new_engine_def run_trace_def initialize_def Let_def
      Individual_def update_best_def update_history_and_log_def py_max_by_fitness_def
      generation_step_def PlusSelection_call_def tracker_fitness_def
      py_sort_by_fitness_desc_def sort_desc_def py_prefix_def fitness_key_def upto_1_2
      eval_nat_numeral)
  moreover have "(1::int) \<le> 2" by simp
  ultimately show ?thesis
    using C5_plus_selection_elitism [of "\<lambda>g. real_of_int (hd g)" "\<lambda>i. [int i]"
      "\<lambda>gen pop. Inr pop" "\<lambda>parents gen. Inr [Individual [gen + 5]]" 2 2 2]
    by blast
qed

section \<open>Cycle crossover\<close>


lemma cx_link_props:
  assumes "distinct p1" "mset p2 = mset p1" "i < length p1"
  shows "map_of (rev (zip p2 [0..<length p2])) (p1 ! i) = Some (cx_link p1 p2 i)"
    and "cx_link p1 p2 i < length p1"
    and "p2 ! cx_link p1 p2 i = p1 ! i"
proof -
  have d2: "distinct p2" using assms(1,2) by (metis mset_eq_imp_distinct_iff)
  have len: "length p2 = length p1" using assms(2) by (metis size_mset)
  have "p1 ! i \<in> set p1" using assms(3) by simp
  then have "p1 ! i \<in> set p2" using assms(2) by (metis set_mset_mset)
  then obtain j where j: "j < length p2" "p2 ! j = p1 ! i" by (auto simp: in_set_conv_nth)
  let ?z = "rev (zip p2 [0..<length p2])"
  have "distinct (map fst ?z)" using d2 by (simp add: rev_map [symmetric])
  moreover have "(p1 ! i, j) \<in> set ?z" using j by (auto simp: set_zip intro!: exI [of _ j])
  ultimately have m: "map_of ?z (p1 ! i) = Some j" by simp
  then have l: "cx_link p1 p2 i = j" by (simp add: cx_link_def)
  show "map_of ?z (p1 ! i) = Some (cx_link p1 p2 i)" using m l by simp
  show "cx_link p1 p2 i < length p1" using l j len by simp
  show "p2 ! cx_link p1 p2 i = p1 ! i" using l j by simp
qed

lemma cx_link_inj:
  assumes "distinct p1" "mset p2 = mset p1" "i < length p1" "j < length p1"
    "cx_link p1 p2 i = cx_link p1 p2 j"
  shows "i = j"
proof -
  have "p1 ! i = p1 ! j"
    using cx_link_props(3) [OF assms(1,2,3)] cx_link_props(3) [OF assms(1,2,4)] assms(5)
    by simp
  then show ?thesis using assms(1,3,4) by (simp add: nth_eq_iff_index_eq)
qed


lemma cx_assign_fields:
  "visited_indices (cx_assign p1 p2 cn j st) = (visited_indices st)[j := True]"
  "assigned (cx_assign p1 p2 cn j st) = assigned st @ [(cn, j)]"
  "c1_gen (cx_assign p1 p2 cn j st) = (c1_gen st)[j := Some (if odd cn then p1 ! j else p2 ! j)]"
  "c2_gen (cx_assign p1 p2 cn j st) = (c2_gen st)[j := Some (if odd cn then p2 ! j else p1 ! j)]"
  by (simp_all add: cx_assign_def Let_def odd_iff_mod_2_eq_one)

lemma cx_inv_mono: "cx_inv p1 p2 cn st \<Longrightarrow> cn \<le> cn' \<Longrightarrow> cx_inv p1 p2 cn' st"
  unfolding cx_inv_def by fastforce

lemma cx_assign_inv:
  assumes inv: "cx_inv p1 p2 cn st" and j: "j < length p1" "\<not> visited_indices st ! j"
    and cn: "1 \<le> cn"
  shows "cx_inv p1 p2 cn (cx_assign p1 p2 cn j st)"
proof -
  let ?st = "cx_assign p1 p2 cn j st"
  let ?n = "length p1"
  note f = cx_assign_fields [of p1 p2 cn j st]
  from inv have len: "length (c1_gen st) = ?n" "length (c2_gen st) = ?n"
      "length (visited_indices st) = ?n"
    and vis: "\<forall>i < ?n. visited_indices st ! i = (i \<in> snd ` set (assigned st))"
    and dist: "distinct (map snd (assigned st))"
    and srt: "sorted (map fst (assigned st))"
    and ent: "\<forall>(k, i) \<in> set (assigned st).
            i < ?n \<and> 1 \<le> k \<and> k \<le> cn
            \<and> c1_gen st ! i = Some (if odd k then p1 ! i else p2 ! i)
            \<and> c2_gen st ! i = Some (if odd k then p2 ! i else p1 ! i)"
    unfolding cx_inv_def by simp_all
  have jn: "j \<notin> snd ` set (assigned st)" using vis j by simp
  have l': "length (c1_gen ?st) = ?n" "length (c2_gen ?st) = ?n"
      "length (visited_indices ?st) = ?n"
    using len by (simp_all add: f)
  have v': "\<forall>i < ?n. visited_indices ?st ! i = (i \<in> snd ` set (assigned ?st))"
  proof (intro allI impI)
    fix i assume i: "i < ?n"
    show "visited_indices ?st ! i = (i \<in> snd ` set (assigned ?st))"
    proof (cases "i = j")
      case True
      then show ?thesis using len(3) j(1) by (simp add: f)
    next
      case False
      then show ?thesis using vis i by (auto simp: f)
    qed
  qed
  have d': "distinct (map snd (assigned ?st))" using dist jn by (simp add: f)
  have "\<forall>k \<in> set (map fst (assigned st)). k \<le> cn" using ent by auto
  then have s': "sorted (map fst (assigned ?st))" using srt by (simp add: f sorted_append)
  have e': "\<forall>(k, i) \<in> set (assigned ?st).
            i < ?n \<and> 1 \<le> k \<and> k \<le> cn
            \<and> c1_gen ?st ! i = Some (if odd k then p1 ! i else p2 ! i)
            \<and> c2_gen ?st ! i = Some (if odd k then p2 ! i else p1 ! i)"
  proof (intro ballI, clarify)
    fix k i assume ki: "(k, i) \<in> set (assigned ?st)"
    show "i < ?n \<and> 1 \<le> k \<and> k \<le> cn
            \<and> c1_gen ?st ! i = Some (if odd k then p1 ! i else p2 ! i)
            \<and> c2_gen ?st ! i = Some (if odd k then p2 ! i else p1 ! i)"
    proof (cases "(k, i) = (cn, j)")
      case True
      then show ?thesis using j(1) cn len by (simp add: f)
    next
      case False
      then have old: "(k, i) \<in> set (assigned st)" using ki by (auto simp: f)
      then have "i \<in> snd ` set (assigned st)" by force
      then have "i \<noteq> j" using jn by auto
      then show ?thesis using ent old by (auto simp: f)
    qed
  qed
  show ?thesis unfolding cx_inv_def using l' v' d' s' e' by blast
qed

lemma cx_assign_closed:
  assumes "cx_closed p1 p2 st (Some (cn, j))"
  shows "cx_closed p1 p2 (cx_assign p1 p2 cn j st) (Some (cn, cx_link p1 p2 j))"
  using assms unfolding cx_closed_def by (auto simp: cx_assign_fields)

lemma cx_closed_exit:
  assumes par: "distinct p1" "mset p2 = mset p1"
    and inv: "cx_inv p1 p2 cn st" and cl: "cx_closed p1 p2 st (Some (cn, j))"
    and j: "j < length p1" "visited_indices st ! j"
  shows "cx_closed p1 p2 st None"
proof -
  let ?n = "length p1"
  let ?log = "assigned st"
  let ?s = "cx_link p1 p2"
  from inv have vis: "\<forall>i < ?n. visited_indices st ! i = (i \<in> snd ` set ?log)"
    and dist: "distinct (map snd ?log)"
    and rng: "\<forall>(k, i) \<in> set ?log. i < ?n"
    unfolding cx_inv_def by auto
  from vis j obtain k' where k': "(k', j) \<in> set ?log" by force
  have inj_snd: "inj_on snd (set ?log)" using dist by (simp add: distinct_map)
  have same: "a = b" if "(a, i) \<in> set ?log" "(b, i) \<in> set ?log" for a b i
    using inj_onD [OF inj_snd, of "(a, i)" "(b, i)"] that by simp
  have "(k, ?s i) \<in> set ?log" if ki: "(k, i) \<in> set ?log" for k i
  proof (rule ccontr)
    assume no: "(k, ?s i) \<notin> set ?log"
    with cl ki have pend: "k = cn" "?s i = j" unfolding cx_closed_def by auto
    with no k' have ne: "k' \<noteq> cn" by auto
    let ?G = "{x. (k', x) \<in> set ?log}"
    have fin: "finite ?G"
    proof -
      have "?G \<subseteq> snd ` set ?log" by force
      then show ?thesis by (rule finite_subset) simp
    qed
    have sub: "?G \<subseteq> {..<?n}" using rng by auto
    have img: "?s ` ?G \<subseteq> ?G"
    proof
      fix y assume "y \<in> ?s ` ?G"
      then obtain x where x: "(k', x) \<in> set ?log" "y = ?s x" by auto
      with cl ne have "(k', ?s x) \<in> set ?log" unfolding cx_closed_def by auto
      then show "y \<in> ?G" using x by simp
    qed
    have inj: "inj_on ?s ?G"
    proof (rule inj_onI)
      fix x y assume "x \<in> ?G" "y \<in> ?G" "?s x = ?s y"
      then show "x = y" using sub cx_link_inj [OF par, of x y] by auto
    qed
    from endo_inj_surj [OF fin img inj] k' have "j \<in> ?s ` ?G" by simp
    then obtain x where x: "(k', x) \<in> set ?log" "?s x = j" by auto
    have "x < ?n" "i < ?n" using rng x(1) ki by auto
    then have "x = i" using cx_link_inj [OF par, of x i] x(2) pend(2) by simp
    then have "k' = k" using same x(1) ki by simp
    then show False using ne pend(1) by simp
  qed
  then show ?thesis unfolding cx_closed_def by auto
qed


lemma unvisited_cx_assign:
  assumes "j < length (visited_indices st)" "\<not> visited_indices st ! j"
  shows "unvisited (cx_assign p1 p2 cn j st) < unvisited st"
proof -
  have dec: "i < length v \<Longrightarrow> \<not> v ! i \<Longrightarrow>
      length (filter (\<lambda>b. \<not> b) (v[i := True])) < length (filter (\<lambda>b. \<not> b) v)"
    for v :: "bool list" and i
  proof (induction v arbitrary: i)
    case Nil
    then show ?case by simp
  next
    case (Cons b v)
    then show ?case by (cases i) (auto simp: Suc_le_eq)
  qed
  show ?thesis using dec [OF assms] by (simp add: unvisited_def cx_assign_fields)
qed

lemma cx_inv_visited:
  assumes "cx_inv p1 p2 cn st" "(k, i) \<in> set (assigned st)"
  shows "visited_indices st ! i" and "i < length p1"
proof -
  from assms have i: "i < length p1" unfolding cx_inv_def by auto
  moreover have "i \<in> snd ` set (assigned st)" using assms(2) by force
  ultimately show "visited_indices st ! i" using assms(1) unfolding cx_inv_def by simp
  show "i < length p1" by (rule i)
qed

lemma cx_cycle_correct:
  assumes par: "distinct p1" "mset p2 = mset p1" and cn: "1 \<le> cn"
  shows "cx_inv p1 p2 cn st \<Longrightarrow> cx_closed p1 p2 st (Some (cn, j)) \<Longrightarrow> j < length p1 \<Longrightarrow>
     \<exists>st'. cx_cycle p1 p2 (map_of (rev (zip p2 [0..<length p2]))) cn j st = Inr st'
        \<and> cx_inv p1 p2 cn st' \<and> cx_closed p1 p2 st' None
        \<and> (visited_indices st ! j \<longrightarrow> st' = st)
        \<and> (\<not> visited_indices st ! j \<longrightarrow> (cn, j) \<in> set (assigned st'))
        \<and> set (assigned st) \<subseteq> set (assigned st')
        \<and> fst ` set (assigned st') \<subseteq> insert cn (fst ` set (assigned st))"
proof (induction "unvisited st" arbitrary: st j rule: less_induct)
  case less
  let ?m = "map_of (rev (zip p2 [0..<length p2]))"
  have lenv: "length (visited_indices st) = length p1"
    using less.prems(1) unfolding cx_inv_def by simp
  have len2: "length p2 = length p1" using par(2) by (metis size_mset)
  show ?case
  proof (cases "visited_indices st ! j")
    case True
    have run: "cx_cycle p1 p2 ?m cn j st = Inr st"
      using True lenv less.prems(3) by (subst cx_cycle.simps) simp
    have "cx_closed p1 p2 st None"
      using par less.prems(1,2,3) True by (rule cx_closed_exit)
    then show ?thesis using run less.prems(1) True by auto
  next
    case False
    let ?st1 = "cx_assign p1 p2 cn j st"
    let ?j' = "cx_link p1 p2 j"
    have lk: "?m (p1 ! j) = Some ?j'" "?j' < length p1"
      using cx_link_props [OF par less.prems(3)] by simp_all
    have run: "cx_cycle p1 p2 ?m cn j st = cx_cycle p1 p2 ?m cn ?j' ?st1"
      using False lenv len2 less.prems(3) lk(1) by (subst cx_cycle.simps) (simp add: Let_def)
    have dec: "unvisited ?st1 < unvisited st"
      using False lenv less.prems(3) by (intro unvisited_cx_assign) simp_all
    have inv1: "cx_inv p1 p2 cn ?st1"
      using less.prems(1,3) False cn by (rule cx_assign_inv)
    have cl1: "cx_closed p1 p2 ?st1 (Some (cn, ?j'))"
      using less.prems(2) by (rule cx_assign_closed)
    from less.hyps [OF dec inv1 cl1 lk(2)] obtain st' where
      r: "cx_cycle p1 p2 ?m cn ?j' ?st1 = Inr st'" "cx_inv p1 p2 cn st'"
         "cx_closed p1 p2 st' None" "set (assigned ?st1) \<subseteq> set (assigned st')"
         "fst ` set (assigned st') \<subseteq> insert cn (fst ` set (assigned ?st1))"
      by blast
    have "fst ` set (assigned ?st1) = insert cn (fst ` set (assigned st))"
      by (simp add: cx_assign_fields)
    then have nums: "fst ` set (assigned st') \<subseteq> insert cn (fst ` set (assigned st))"
      using r(5) by simp
    have "(cn, j) \<in> set (assigned ?st1)" by (simp add: cx_assign_fields)
    then have in': "(cn, j) \<in> set (assigned st')" using r(4) by blast
    have "set (assigned st) \<subseteq> set (assigned ?st1)" by (auto simp: cx_assign_fields)
    then have sub: "set (assigned st) \<subseteq> set (assigned st')" using r(4) by blast
    show ?thesis using run r(1,2,3) in' sub nums False by simp
  qed
qed

lemma cx_outer_correct:
  assumes par: "distinct p1" "mset p2 = mset p1"
  shows "cx_inv p1 p2 cn st \<Longrightarrow> cx_closed p1 p2 st None \<Longrightarrow> \<forall>i \<in> set idxs. i < length p1 \<Longrightarrow>
    fst ` set (assigned st) = {1..cn} \<Longrightarrow>
    \<exists>st' cn'. cx_outer p1 p2 (map_of (rev (zip p2 [0..<length p2]))) idxs cn st = Inr st'
       \<and> cx_inv p1 p2 cn' st' \<and> cx_closed p1 p2 st' None
       \<and> fst ` set (assigned st') = {1..cn'}
       \<and> (\<forall>i \<in> set idxs. visited_indices st' ! i)
       \<and> set (assigned st) \<subseteq> set (assigned st')"
proof (induction idxs arbitrary: cn st)
  case Nil
  then show ?case by auto
next
  case (Cons idx rest)
  let ?m = "map_of (rev (zip p2 [0..<length p2]))"
  have lenv: "length (visited_indices st) = length p1"
    using Cons.prems(1) unfolding cx_inv_def by simp
  have idx: "idx < length p1" and rest: "\<forall>i \<in> set rest. i < length p1"
    using Cons.prems(3) by simp_all
  show ?case
  proof (cases "visited_indices st ! idx")
    case True
    from Cons.IH [OF Cons.prems(1,2) rest Cons.prems(4)] obtain st' cn' where
      r: "cx_outer p1 p2 ?m rest cn st = Inr st'" "cx_inv p1 p2 cn' st'"
         "cx_closed p1 p2 st' None" "\<forall>i \<in> set rest. visited_indices st' ! i"
         "set (assigned st) \<subseteq> set (assigned st')"
         "fst ` set (assigned st') = {1..cn'}"
      by blast
    have run: "cx_outer p1 p2 ?m (idx # rest) cn st = Inr st'"
      using True lenv idx r(1) by simp
    from Cons.prems(1) idx True have "idx \<in> snd ` set (assigned st)"
      unfolding cx_inv_def by simp
    then obtain k where "(k, idx) \<in> set (assigned st)" by auto
    then have "(k, idx) \<in> set (assigned st')" using r(5) by blast
    then have "visited_indices st' ! idx" using r(2) by (rule cx_inv_visited(1) [rotated])
    then show ?thesis using run r(2,3,4,5,6) by auto
  next
    case False
    have inv1: "cx_inv p1 p2 (cn + 1) st" using Cons.prems(1) by (rule cx_inv_mono) simp
    have cl1: "cx_closed p1 p2 st (Some (cn + 1, idx))"
      using Cons.prems(2) unfolding cx_closed_def by auto
    have "1 \<le> cn + 1" by simp
    from cx_cycle_correct [OF par this inv1 cl1 idx] False obtain st1 where
      c: "cx_cycle p1 p2 ?m (cn + 1) idx st = Inr st1" "cx_inv p1 p2 (cn + 1) st1"
         "cx_closed p1 p2 st1 None" "(cn + 1, idx) \<in> set (assigned st1)"
         "set (assigned st) \<subseteq> set (assigned st1)"
         "fst ` set (assigned st1) \<subseteq> insert (cn + 1) (fst ` set (assigned st))"
      by blast
    have "cn + 1 \<in> fst ` set (assigned st1)" using c(4) by force
    moreover have "fst ` set (assigned st) \<subseteq> fst ` set (assigned st1)"
      using c(5) by (rule image_mono)
    ultimately have "fst ` set (assigned st1) = insert (cn + 1) {1..cn}"
      using c(6) Cons.prems(4) by auto
    also have "\<dots> = {1..cn + 1}" by auto
    finally have n1: "fst ` set (assigned st1) = {1..cn + 1}" .
    from Cons.IH [OF c(2,3) rest n1] obtain st' cn' where
      r: "cx_outer p1 p2 ?m rest (cn + 1) st1 = Inr st'" "cx_inv p1 p2 cn' st'"
         "cx_closed p1 p2 st' None" "\<forall>i \<in> set rest. visited_indices st' ! i"
         "set (assigned st1) \<subseteq> set (assigned st')"
         "fst ` set (assigned st') = {1..cn'}"
      by blast
    have run: "cx_outer p1 p2 ?m (idx # rest) cn st = Inr st'"
      using False lenv idx c(1) r(1) by simp
    have "(cn + 1, idx) \<in> set (assigned st')" using c(4) r(5) by blast
    then have "visited_indices st' ! idx" using r(2) by (rule cx_inv_visited(1) [rotated])
    moreover have "set (assigned st) \<subseteq> set (assigned st')" using c(5) r(5) by blast
    ultimately show ?thesis using run r(2,3,4,6) by auto
  qed
qed


lemma cycle_crossover_run:
  assumes par: "distinct p1" "mset p2 = mset p1"
  shows "\<exists>st cn. cycle_crossover p1 p2 = Inr st \<and> cx_inv p1 p2 cn st
           \<and> cx_closed p1 p2 st None \<and> fst ` set (assigned st) = {1..cn}
           \<and> (\<forall>i < length p1. visited_indices st ! i)"
proof -
  let ?n = "length p1"
  let ?st0 = "\<lparr>c1_gen = replicate ?n None, c2_gen = replicate ?n None,
                visited_indices = replicate ?n False, assigned = []\<rparr> :: 'a cx_state"
  have len2: "length p2 = ?n" using par(2) by (metis size_mset)
  have inv0: "cx_inv p1 p2 0 ?st0" by (simp add: cx_inv_def)
  have cl0: "cx_closed p1 p2 ?st0 None" by (simp add: cx_closed_def)
  have n0: "fst ` set (assigned ?st0) = {1..0::nat}" by simp
  have rng: "\<forall>i \<in> set [0..<?n]. i < ?n" by simp
  from cx_outer_correct [OF par inv0 cl0 rng n0] obtain st cn where
    r: "cx_outer p1 p2 (map_of (rev (zip p2 [0..<length p2]))) [0..<?n] 0 ?st0 = Inr st"
       "cx_inv p1 p2 cn st" "cx_closed p1 p2 st None" "fst ` set (assigned st) = {1..cn}"
       "\<forall>i \<in> set [0..<?n]. visited_indices st ! i"
    by blast
  have "cycle_crossover p1 p2 = Inr st"
    using r(1) by (simp add: cycle_crossover_def Let_def)
  then show ?thesis using r(2,3,4,5) by auto
qed

lemma cx_steps_prefix: "cx_steps p1 p2 (tr @ ext) \<Longrightarrow> cx_steps p1 p2 tr"
  unfolding cx_steps_def
proof (intro allI impI)
  fix t
  assume a: "\<forall>t. Suc t < length (tr @ ext) \<longrightarrow>
        (fst ((tr @ ext) ! Suc t) = fst ((tr @ ext) ! t)
           \<and> p2 ! snd ((tr @ ext) ! Suc t) = p1 ! snd ((tr @ ext) ! t))
      \<or> (fst ((tr @ ext) ! Suc t) = Suc (fst ((tr @ ext) ! t))
          \<and> (\<forall>j < snd ((tr @ ext) ! Suc t). j \<in> snd ` set (take (Suc t) (tr @ ext))))"
    and t: "Suc t < length tr"
  have e: "(tr @ ext) ! Suc t = tr ! Suc t" "(tr @ ext) ! t = tr ! t"
    "take (Suc t) (tr @ ext) = take (Suc t) tr"
    using t by (simp_all add: nth_append)
  have "Suc t < length (tr @ ext)" using t by simp
  from a [rule_format, OF this]
  have "(fst ((tr @ ext) ! Suc t) = fst ((tr @ ext) ! t)
           \<and> p2 ! snd ((tr @ ext) ! Suc t) = p1 ! snd ((tr @ ext) ! t))
      \<or> (fst ((tr @ ext) ! Suc t) = Suc (fst ((tr @ ext) ! t))
          \<and> (\<forall>j < snd ((tr @ ext) ! Suc t). j \<in> snd ` set (take (Suc t) (tr @ ext))))" .
  then show "(fst (tr ! Suc t) = fst (tr ! t) \<and> p2 ! snd (tr ! Suc t) = p1 ! snd (tr ! t))
      \<or> (fst (tr ! Suc t) = Suc (fst (tr ! t))
          \<and> (\<forall>j < snd (tr ! Suc t). j \<in> snd ` set (take (Suc t) tr)))"
    unfolding e .
qed

lemma cx_steps_snoc:
  assumes old: "cx_steps p1 p2 tr"
    and new: "tr \<noteq> [] \<Longrightarrow>
        (fst x = fst (last tr) \<and> p2 ! snd x = p1 ! snd (last tr))
      \<or> (fst x = Suc (fst (last tr)) \<and> (\<forall>j < snd x. j \<in> snd ` set tr))"
  shows "cx_steps p1 p2 (tr @ [x])"
  unfolding cx_steps_def
proof (intro allI impI)
  fix t assume t: "Suc t < length (tr @ [x])"
  show "(fst ((tr @ [x]) ! Suc t) = fst ((tr @ [x]) ! t)
           \<and> p2 ! snd ((tr @ [x]) ! Suc t) = p1 ! snd ((tr @ [x]) ! t))
      \<or> (fst ((tr @ [x]) ! Suc t) = Suc (fst ((tr @ [x]) ! t))
          \<and> (\<forall>j < snd ((tr @ [x]) ! Suc t). j \<in> snd ` set (take (Suc t) (tr @ [x]))))"
  proof (cases "Suc t < length tr")
    case True
    have e: "(tr @ [x]) ! Suc t = tr ! Suc t" "(tr @ [x]) ! t = tr ! t"
      "take (Suc t) (tr @ [x]) = take (Suc t) tr"
      using True by (simp_all add: nth_append)
    from old True show ?thesis unfolding e cx_steps_def by simp
  next
    case False
    then have tl: "Suc t = length tr" using t by simp
    then have ne: "tr \<noteq> []" by auto
    have t': "t = length tr - 1" using tl by simp
    have e: "(tr @ [x]) ! Suc t = x" "(tr @ [x]) ! t = last tr"
      "take (Suc t) (tr @ [x]) = tr"
      using tl ne by (simp_all add: nth_append last_conv_nth t')
    from new [OF ne] show ?thesis unfolding e .
  qed
qed

lemma cx_cycle_steps:
  assumes par: "distinct p1" "mset p2 = mset p1" and cn: "1 \<le> cn"
  shows "cx_inv p1 p2 cn st \<Longrightarrow> j < length p1 \<Longrightarrow>
     cx_steps p1 p2 (assigned st @ [(cn, j)]) \<Longrightarrow>
     cx_cycle p1 p2 (map_of (rev (zip p2 [0..<length p2]))) cn j st = Inr st' \<Longrightarrow>
     cx_steps p1 p2 (assigned st')
     \<and> (\<exists>ext. assigned st' = assigned st @ ext \<and> (\<forall>x \<in> set ext. fst x = cn)
          \<and> (\<not> visited_indices st ! j \<longrightarrow> ext \<noteq> [] \<and> hd ext = (cn, j)))"
proof (induction "unvisited st" arbitrary: st j rule: less_induct)
  case less
  let ?m = "map_of (rev (zip p2 [0..<length p2]))"
  have lenv: "length (visited_indices st) = length p1"
    using less.prems(1) unfolding cx_inv_def by simp
  have len2: "length p2 = length p1" using par(2) by (metis size_mset)
  show ?case
  proof (cases "visited_indices st ! j")
    case True
    have "cx_cycle p1 p2 ?m cn j st = Inr st"
      using True lenv less.prems(2) by (subst cx_cycle.simps) simp
    then have eq: "st' = st" using less.prems(4) by simp
    have "cx_steps p1 p2 (assigned st)" using less.prems(3) by (rule cx_steps_prefix)
    then show ?thesis using eq True by simp
  next
    case False
    let ?st1 = "cx_assign p1 p2 cn j st"
    let ?j' = "cx_link p1 p2 j"
    have lk: "?m (p1 ! j) = Some ?j'" "?j' < length p1" "p2 ! ?j' = p1 ! j"
      using cx_link_props [OF par less.prems(2)] by simp_all
    have run: "cx_cycle p1 p2 ?m cn j st = cx_cycle p1 p2 ?m cn ?j' ?st1"
      using False lenv len2 less.prems(2) lk(1) by (subst cx_cycle.simps) (simp add: Let_def)
    have dec: "unvisited ?st1 < unvisited st"
      using False lenv less.prems(2) by (intro unvisited_cx_assign) simp_all
    have inv1: "cx_inv p1 p2 cn ?st1"
      using less.prems(1,2) False cn by (rule cx_assign_inv)
    have log1: "assigned ?st1 = assigned st @ [(cn, j)]" by (simp add: cx_assign_fields)
    have st1: "cx_steps p1 p2 (assigned ?st1 @ [(cn, ?j')])"
    proof (rule cx_steps_snoc)
      show "cx_steps p1 p2 (assigned ?st1)" using less.prems(3) log1 by simp
      show "(fst (cn, ?j') = fst (last (assigned ?st1))
               \<and> p2 ! snd (cn, ?j') = p1 ! snd (last (assigned ?st1)))
          \<or> (fst (cn, ?j') = Suc (fst (last (assigned ?st1)))
               \<and> (\<forall>i < snd (cn, ?j'). i \<in> snd ` set (assigned ?st1)))"
        using lk(3) by (simp add: log1)
    qed
    have r1: "cx_cycle p1 p2 ?m cn ?j' ?st1 = Inr st'" using run less.prems(4) by simp
    from less.hyps [OF dec inv1 lk(2) st1 r1] obtain ext where
      r: "cx_steps p1 p2 (assigned st')" "assigned st' = assigned ?st1 @ ext"
         "\<forall>x \<in> set ext. fst x = cn"
      by blast
    have "assigned st' = assigned st @ ((cn, j) # ext)" using r(2) log1 by simp
    moreover have "\<forall>x \<in> set ((cn, j) # ext). fst x = cn" using r(3) by simp
    moreover have "(cn, j) # ext \<noteq> [] \<and> hd ((cn, j) # ext) = (cn, j)" by simp
    ultimately show ?thesis using r(1) by blast
  qed
qed

lemma cx_outer_steps:
  assumes par: "distinct p1" "mset p2 = mset p1"
  shows "cx_inv p1 p2 cn st \<Longrightarrow> cx_closed p1 p2 st None \<Longrightarrow> idxs = [a..<length p1] \<Longrightarrow>
     cx_steps p1 p2 (assigned st) \<Longrightarrow> \<forall>j < a. j \<in> snd ` set (assigned st) \<Longrightarrow>
     (assigned st \<noteq> [] \<longrightarrow> fst (last (assigned st)) = cn \<and> hd (assigned st) = (1, 0)) \<Longrightarrow>
     (assigned st = [] \<longrightarrow> cn = 0) \<Longrightarrow>
     cx_outer p1 p2 (map_of (rev (zip p2 [0..<length p2]))) idxs cn st = Inr st' \<Longrightarrow>
     cx_steps p1 p2 (assigned st') \<and> (assigned st' \<noteq> [] \<longrightarrow> hd (assigned st') = (1, 0))"
proof (induction idxs arbitrary: cn st a)
  case Nil
  then show ?case by simp
next
  case (Cons idx rest)
  let ?m = "map_of (rev (zip p2 [0..<length p2]))"
  let ?log = "assigned st"
  have lenv: "length (visited_indices st) = length p1"
    using Cons.prems(1) unfolding cx_inv_def by simp
  have an: "a < length p1" using Cons.prems(3) by (cases "a < length p1") simp_all
  then have "[a..<length p1] = a # [Suc a..<length p1]" by (rule upt_conv_Cons)
  then have idx: "idx = a" and rest: "rest = [Suc a..<length p1]"
    using Cons.prems(3) by simp_all
  show ?case
  proof (cases "visited_indices st ! a")
    case True
    have run: "cx_outer p1 p2 ?m rest cn st = Inr st'"
      using Cons.prems(8) True lenv an idx by simp
    have "a \<in> snd ` set ?log" using Cons.prems(1) an True unfolding cx_inv_def by simp
    then have cov: "\<forall>j < Suc a. j \<in> snd ` set ?log"
      using Cons.prems(5) by (simp add: less_Suc_eq)
    show ?thesis
      using Cons.IH [OF Cons.prems(1,2) rest Cons.prems(4) cov Cons.prems(6,7) run] .
  next
    case False
    have inv1: "cx_inv p1 p2 (cn + 1) st" using Cons.prems(1) by (rule cx_inv_mono) simp
    have cl1: "cx_closed p1 p2 st (Some (cn + 1, a))"
      using Cons.prems(2) unfolding cx_closed_def by auto
    have one: "1 \<le> cn + 1" by simp
    from cx_cycle_correct [OF par one inv1 cl1 an] obtain st1 where
      c: "cx_cycle p1 p2 ?m (cn + 1) a st = Inr st1" "cx_inv p1 p2 (cn + 1) st1"
         "cx_closed p1 p2 st1 None"
      by blast
    have pre: "cx_steps p1 p2 (?log @ [(cn + 1, a)])"
    proof (rule cx_steps_snoc)
      show "cx_steps p1 p2 ?log" by (rule Cons.prems(4))
      assume "?log \<noteq> []"
      then have "fst (last ?log) = cn" using Cons.prems(6) by simp
      then show "(fst (cn + 1, a) = fst (last ?log)
               \<and> p2 ! snd (cn + 1, a) = p1 ! snd (last ?log))
          \<or> (fst (cn + 1, a) = Suc (fst (last ?log))
               \<and> (\<forall>j < snd (cn + 1, a). j \<in> snd ` set ?log))"
        using Cons.prems(5) by simp
    qed
    from cx_cycle_steps [OF par one inv1 an pre c(1)] False obtain ext where
      e: "cx_steps p1 p2 (assigned st1)" "assigned st1 = ?log @ ext"
         "\<forall>x \<in> set ext. fst x = cn + 1" "ext \<noteq> []" "hd ext = (cn + 1, a)"
      by blast
    have run: "cx_outer p1 p2 ?m rest (cn + 1) st1 = Inr st'"
      using Cons.prems(8) False lenv an idx c(1) by simp
    have "last ext \<in> set ext" using e(4) by simp
    then have lst: "fst (last (assigned st1)) = cn + 1" using e(2,3,4) by simp
    have hd1: "hd (assigned st1) = (1, 0)"
    proof (cases "?log = []")
      case True
      then have "cn = 0" using Cons.prems(7) by simp
      moreover have "a = 0" using Cons.prems(5) True by (cases a) auto
      ultimately show ?thesis using e(2,5) True by simp
    next
      case False
      then show ?thesis using e(2) Cons.prems(6) by simp
    qed
    have "(cn + 1, a) \<in> set ext" using e(4,5) by (metis hd_in_set)
    then have "a \<in> snd ` set (assigned st1)" using e(2) by force
    moreover have "\<forall>j < a. j \<in> snd ` set (assigned st1)"
      using Cons.prems(5) e(2) by auto
    ultimately have cov: "\<forall>j < Suc a. j \<in> snd ` set (assigned st1)"
      by (simp add: less_Suc_eq)
    have p6: "assigned st1 \<noteq> [] \<longrightarrow> fst (last (assigned st1)) = cn + 1 \<and> hd (assigned st1) = (1, 0)"
      using lst hd1 by simp
    have p7: "assigned st1 = [] \<longrightarrow> cn + 1 = 0" using e(2,4) by simp
    show ?thesis using Cons.IH [OF c(2,3) rest e(1) cov p6 p7 run] .
  qed
qed

lemma cycle_crossover_steps:
  assumes par: "distinct p1" "mset p2 = mset p1"
    and run: "cycle_crossover p1 p2 = Inr st"
  shows "cx_steps p1 p2 (assigned st)" and "assigned st \<noteq> [] \<Longrightarrow> hd (assigned st) = (1, 0)"
proof -
  let ?n = "length p1"
  let ?st0 = "\<lparr>c1_gen = replicate ?n None, c2_gen = replicate ?n None,
                visited_indices = replicate ?n False, assigned = []\<rparr> :: 'a cx_state"
  have inv0: "cx_inv p1 p2 0 ?st0" by (simp add: cx_inv_def)
  have cl0: "cx_closed p1 p2 ?st0 None" by (simp add: cx_closed_def)
  have s0: "cx_steps p1 p2 (assigned ?st0)" by (simp add: cx_steps_def)
  have c0: "\<forall>j < (0::nat). j \<in> snd ` set (assigned ?st0)" by simp
  have p6: "assigned ?st0 \<noteq> [] \<longrightarrow> fst (last (assigned ?st0)) = 0 \<and> hd (assigned ?st0) = (1, 0)"
    by simp
  have p7: "assigned ?st0 = [] \<longrightarrow> (0::nat) = 0" by simp
  have r: "cx_outer p1 p2 (map_of (rev (zip p2 [0..<length p2]))) [0..<?n] 0 ?st0 = Inr st"
    using run by (simp add: cycle_crossover_def Let_def)
  from cx_outer_steps [OF par inv0 cl0 refl s0 c0 p6 p7 r]
  show "cx_steps p1 p2 (assigned st)" and "assigned st \<noteq> [] \<Longrightarrow> hd (assigned st) = (1, 0)"
    by simp_all
qed

lemma mset_eq_by_cover:
  assumes "distinct xs" "length ys = length xs" "set xs \<subseteq> set ys"
  shows "mset ys = mset xs"
proof -
  have "card (set xs) = length xs" using assms(1) by (rule distinct_card)
  moreover have "card (set xs) \<le> card (set ys)" using assms(3) by (simp add: card_mono)
  moreover have "card (set ys) \<le> length ys" by (rule card_length)
  ultimately have c: "card (set ys) = length ys" "card (set xs) = card (set ys)"
    using assms(2) by simp_all
  have "distinct ys" using c(1) by (rule card_distinct)
  moreover have "set xs = set ys" using assms(3) c(2) by (simp add: card_subset_eq)
  ultimately show ?thesis using assms(1) by (simp add: set_eq_iff_mset_eq_distinct)
qed


text \<open>
  C3: for parents that are permutations of the same gene set, cycle crossover returns two
  children with every position filled and every position visited.  \<open>assigned st\<close> lists
  the pairs (cycle number, position) in the order in which the positions are written.
  Every position is written exactly once, under one cycle number; the numbers are 1 to
  \<open>m\<close> and never decrease along the list, so each cycle is one contiguous run of it.
  The list starts with position 0 in cycle 1.  Each later entry either continues the
  cycle of the entry before it, at the position where parent 2 holds the gene that
  parent 1 holds at that entry's position, so the positions of one cycle form one chain
  of this link; or it opens the next cycle, at the least position not written so far,
  which is the order of discovery.  A cycle is closed: the gene that parent 1 holds at
  any of its positions is held by parent 2 at a position of the same cycle.  At the
  positions of an odd cycle child 1 has parent 1's gene and child 2 parent 2's, at those
  of an even cycle the other way round; so at every position the two children hold the
  two parents' genes in one order or the other, and each child is a permutation of the
  parents' genes.
\<close>

theorem C3_cycle_crossover:
  assumes par: "distinct parent1" "mset parent2 = mset parent1"
  shows "\<exists>st child1 child2 m.
      cycle_crossover parent1 parent2 = Inr st
    \<and> c1_gen st = map Some child1 \<and> c2_gen st = map Some child2
    \<and> length child1 = length parent1 \<and> length child2 = length parent1
    \<and> visited_indices st = replicate (length parent1) True
    \<and> distinct (map snd (assigned st)) \<and> snd ` set (assigned st) = {0..<length parent1}
    \<and> sorted (map fst (assigned st)) \<and> fst ` set (assigned st) = {1..m}
    \<and> (parent1 \<noteq> [] \<longrightarrow> hd (assigned st) = (1, 0))
    \<and> (\<forall>t. Suc t < length (assigned st) \<longrightarrow>
          (fst (assigned st ! Suc t) = fst (assigned st ! t)
            \<and> parent2 ! snd (assigned st ! Suc t) = parent1 ! snd (assigned st ! t))
        \<or> (fst (assigned st ! Suc t) = Suc (fst (assigned st ! t))
            \<and> (\<forall>j < snd (assigned st ! Suc t).
                  j \<in> snd ` set (take (Suc t) (assigned st)))))
    \<and> (\<forall>(k, i) \<in> set (assigned st).
          \<exists>j. (k, j) \<in> set (assigned st) \<and> parent2 ! j = parent1 ! i)
    \<and> (\<forall>(k, i) \<in> set (assigned st).
          child1 ! i = (if odd k then parent1 ! i else parent2 ! i)
        \<and> child2 ! i = (if odd k then parent2 ! i else parent1 ! i))
    \<and> (\<forall>i < length parent1.
          child1 ! i = parent1 ! i \<and> child2 ! i = parent2 ! i
        \<or> child1 ! i = parent2 ! i \<and> child2 ! i = parent1 ! i)
    \<and> mset child1 = mset parent1 \<and> mset child2 = mset parent1"
proof -
  let ?n = "length parent1"
  from cycle_crossover_run [OF par] obtain st cn where
    run: "cycle_crossover parent1 parent2 = Inr st" and inv: "cx_inv parent1 parent2 cn st"
    and cl: "cx_closed parent1 parent2 st None" and nums: "fst ` set (assigned st) = {1..cn}"
    and allv: "\<forall>i < ?n. visited_indices st ! i"
    by blast
  let ?log = "assigned st"
  let ?c1 = "map the (c1_gen st)"
  let ?c2 = "map the (c2_gen st)"
  from inv have len: "length (c1_gen st) = ?n" "length (c2_gen st) = ?n"
    and vis: "\<forall>i < ?n. visited_indices st ! i = (i \<in> snd ` set ?log)"
    and dist: "distinct (map snd ?log)"
    and srt: "sorted (map fst ?log)"
    and ent: "\<forall>(k, i) \<in> set ?log.
            i < ?n \<and> 1 \<le> k \<and> k \<le> cn
            \<and> c1_gen st ! i = Some (if odd k then parent1 ! i else parent2 ! i)
            \<and> c2_gen st ! i = Some (if odd k then parent2 ! i else parent1 ! i)"
    unfolding cx_inv_def by simp_all
  have ent': "i < ?n" "c1_gen st ! i = Some (if odd k then parent1 ! i else parent2 ! i)"
      "c2_gen st ! i = Some (if odd k then parent2 ! i else parent1 ! i)"
    if "(k, i) \<in> set ?log" for k i
    using ent that by auto
  have cover: "\<exists>k. (k, i) \<in> set ?log" if "i < ?n" for i
    using vis allv that by force
  have pos: "snd ` set ?log = {0..<?n}"
  proof
    show "snd ` set ?log \<subseteq> {0..<?n}" using ent'(1) by auto
    show "{0..<?n} \<subseteq> snd ` set ?log" using vis allv by auto
  qed
  have c1: "c1_gen st = map Some ?c1"
  proof (rule nth_equalityI)
    show "length (c1_gen st) = length (map Some ?c1)" by simp
    fix i assume "i < length (c1_gen st)"
    then have i: "i < ?n" using len by simp
    then obtain k where "(k, i) \<in> set ?log" using cover by blast
    from ent'(2) [OF this] show "c1_gen st ! i = map Some ?c1 ! i" using i len by simp
  qed
  have c2: "c2_gen st = map Some ?c2"
  proof (rule nth_equalityI)
    show "length (c2_gen st) = length (map Some ?c2)" by simp
    fix i assume "i < length (c2_gen st)"
    then have i: "i < ?n" using len by simp
    then obtain k where "(k, i) \<in> set ?log" using cover by blast
    from ent'(3) [OF this] show "c2_gen st ! i = map Some ?c2 ! i" using i len by simp
  qed
  have val: "?c1 ! i = (if odd k then parent1 ! i else parent2 ! i)"
      "?c2 ! i = (if odd k then parent2 ! i else parent1 ! i)"
    if "(k, i) \<in> set ?log" for k i
    using ent' [OF that] len by simp_all
  have link: "(k, cx_link parent1 parent2 i) \<in> set ?log"
      "parent2 ! cx_link parent1 parent2 i = parent1 ! i"
    if "(k, i) \<in> set ?log" for k i
  proof -
    show "(k, cx_link parent1 parent2 i) \<in> set ?log"
      using cl that unfolding cx_closed_def by auto
    show "parent2 ! cx_link parent1 parent2 i = parent1 ! i"
      using cx_link_props(3) [OF par ent'(1) [OF that]] .
  qed
  have closed: "\<forall>(k, i) \<in> set ?log. \<exists>j. (k, j) \<in> set ?log \<and> parent2 ! j = parent1 ! i"
    using link by blast
  have vals: "\<forall>(k, i) \<in> set ?log.
          ?c1 ! i = (if odd k then parent1 ! i else parent2 ! i)
        \<and> ?c2 ! i = (if odd k then parent2 ! i else parent1 ! i)"
    using val by blast
  have pairs: "\<forall>i < ?n. ?c1 ! i = parent1 ! i \<and> ?c2 ! i = parent2 ! i
                    \<or> ?c1 ! i = parent2 ! i \<and> ?c2 ! i = parent1 ! i"
  proof (intro allI impI)
    fix i assume "i < ?n"
    then obtain k where "(k, i) \<in> set ?log" using cover by blast
    from val [OF this] show "?c1 ! i = parent1 ! i \<and> ?c2 ! i = parent2 ! i
                    \<or> ?c1 ! i = parent2 ! i \<and> ?c2 ! i = parent1 ! i"
      by (cases "odd k") simp_all
  qed
  have cov1: "set parent1 \<subseteq> set ?c1"
  proof
    fix g assume "g \<in> set parent1"
    then obtain i where i: "i < ?n" "parent1 ! i = g" by (auto simp: in_set_conv_nth)
    then obtain k where k: "(k, i) \<in> set ?log" using cover by blast
    let ?j = "cx_link parent1 parent2 i"
    show "g \<in> set ?c1"
    proof (cases "odd k")
      case True
      then have "?c1 ! i = g" using val(1) [OF k] i(2) by simp
      moreover have "i < length ?c1" using i(1) len by simp
      ultimately show ?thesis by (metis nth_mem)
    next
      case False
      then have "?c1 ! ?j = g" using val(1) [OF link(1) [OF k]] link(2) [OF k] i(2) by simp
      moreover have "?j < length ?c1" using ent'(1) [OF link(1) [OF k]] len by simp
      ultimately show ?thesis by (metis nth_mem)
    qed
  qed
  have cov2: "set parent1 \<subseteq> set ?c2"
  proof
    fix g assume "g \<in> set parent1"
    then obtain i where i: "i < ?n" "parent1 ! i = g" by (auto simp: in_set_conv_nth)
    then obtain k where k: "(k, i) \<in> set ?log" using cover by blast
    let ?j = "cx_link parent1 parent2 i"
    show "g \<in> set ?c2"
    proof (cases "odd k")
      case False
      then have "?c2 ! i = g" using val(2) [OF k] i(2) by simp
      moreover have "i < length ?c2" using i(1) len by simp
      ultimately show ?thesis by (metis nth_mem)
    next
      case True
      then have "?c2 ! ?j = g" using val(2) [OF link(1) [OF k]] link(2) [OF k] i(2) by simp
      moreover have "?j < length ?c2" using ent'(1) [OF link(1) [OF k]] len by simp
      ultimately show ?thesis by (metis nth_mem)
    qed
  qed
  have l1: "length ?c1 = ?n" and l2: "length ?c2 = ?n" using len by simp_all
  have m1: "mset ?c1 = mset parent1" using par(1) l1 cov1 by (rule mset_eq_by_cover)
  have m2: "mset ?c2 = mset parent1" using par(1) l2 cov2 by (rule mset_eq_by_cover)
  have lv: "length (visited_indices st) = ?n" using inv unfolding cx_inv_def by simp
  have visd: "visited_indices st = replicate ?n True"
  proof (rule nth_equalityI)
    show "length (visited_indices st) = length (replicate ?n True)" using lv by simp
    fix i assume "i < length (visited_indices st)"
    then show "visited_indices st ! i = replicate ?n True ! i" using lv allv by simp
  qed
  have first: "parent1 \<noteq> [] \<longrightarrow> hd ?log = (1, 0)"
  proof
    assume "parent1 \<noteq> []"
    then have "0 \<in> snd ` set ?log" using pos by simp
    then have "?log \<noteq> []" by auto
    then show "hd ?log = (1, 0)" by (rule cycle_crossover_steps(2) [OF par run])
  qed
  have steps: "\<forall>t. Suc t < length ?log \<longrightarrow>
          (fst (?log ! Suc t) = fst (?log ! t)
            \<and> parent2 ! snd (?log ! Suc t) = parent1 ! snd (?log ! t))
        \<or> (fst (?log ! Suc t) = Suc (fst (?log ! t))
            \<and> (\<forall>j < snd (?log ! Suc t). j \<in> snd ` set (take (Suc t) ?log)))"
    using cycle_crossover_steps(1) [OF par run] unfolding cx_steps_def .
  have "cycle_crossover parent1 parent2 = Inr st
    \<and> c1_gen st = map Some ?c1 \<and> c2_gen st = map Some ?c2
    \<and> length ?c1 = length parent1 \<and> length ?c2 = length parent1
    \<and> visited_indices st = replicate (length parent1) True
    \<and> distinct (map snd (assigned st)) \<and> snd ` set (assigned st) = {0..<length parent1}
    \<and> sorted (map fst (assigned st)) \<and> fst ` set (assigned st) = {1..cn}
    \<and> (parent1 \<noteq> [] \<longrightarrow> hd (assigned st) = (1, 0))
    \<and> (\<forall>t. Suc t < length (assigned st) \<longrightarrow>
          (fst (assigned st ! Suc t) = fst (assigned st ! t)
            \<and> parent2 ! snd (assigned st ! Suc t) = parent1 ! snd (assigned st ! t))
        \<or> (fst (assigned st ! Suc t) = Suc (fst (assigned st ! t))
            \<and> (\<forall>j < snd (assigned st ! Suc t).
                  j \<in> snd ` set (take (Suc t) (assigned st)))))
    \<and> (\<forall>(k, i) \<in> set (assigned st).
          \<exists>j. (k, j) \<in> set (assigned st) \<and> parent2 ! j = parent1 ! i)
    \<and> (\<forall>(k, i) \<in> set (assigned st).
          ?c1 ! i = (if odd k then parent1 ! i else parent2 ! i)
        \<and> ?c2 ! i = (if odd k then parent2 ! i else parent1 ! i))
    \<and> (\<forall>i < length parent1.
          ?c1 ! i = parent1 ! i \<and> ?c2 ! i = parent2 ! i
        \<or> ?c1 ! i = parent2 ! i \<and> ?c2 ! i = parent1 ! i)
    \<and> mset ?c1 = mset parent1 \<and> mset ?c2 = mset parent1"
    by (intro conjI run c1 c2 l1 l2 visd dist pos srt nums first steps closed vals pairs m1 m2)
  then show ?thesis by (intro exI)
qed


theorem C3_cycle_crossover_witness:
  "distinct [1, 2, 3, 4, 5 :: int] \<and> mset [3, 4, 1, 5, 2 :: int] = mset [1, 2, 3, 4, 5 :: int]
   \<and> cycle_crossover [1, 2, 3, 4, 5 :: int] [3, 4, 1, 5, 2 :: int]
       = Inr \<lparr>c1_gen = map Some [1, 4, 3, 5, 2], c2_gen = map Some [3, 2, 1, 4, 5],
              visited_indices = [True, True, True, True, True],
              assigned = [(1, 0), (1, 2), (2, 1), (2, 4), (2, 3)]\<rparr>
   \<and> (\<exists>st child1 child2 m.
      cycle_crossover [1, 2, 3, 4, 5 :: int] [3, 4, 1, 5, 2 :: int] = Inr st
    \<and> c1_gen st = map Some child1 \<and> c2_gen st = map Some child2
    \<and> length child1 = length [1, 2, 3, 4, 5 :: int] \<and> length child2 = length [1, 2, 3, 4, 5 :: int]
    \<and> visited_indices st = replicate (length [1, 2, 3, 4, 5 :: int]) True
    \<and> distinct (map snd (assigned st)) \<and> snd ` set (assigned st) = {0..<length [1, 2, 3, 4, 5 :: int]}
    \<and> sorted (map fst (assigned st)) \<and> fst ` set (assigned st) = {1..m}
    \<and> ([1, 2, 3, 4, 5 :: int] \<noteq> [] \<longrightarrow> hd (assigned st) = (1, 0))
    \<and> (\<forall>t. Suc t < length (assigned st) \<longrightarrow>
          (fst (assigned st ! Suc t) = fst (assigned st ! t)
            \<and> [3, 4, 1, 5, 2 :: int] ! snd (assigned st ! Suc t) = [1, 2, 3, 4, 5 :: int] ! snd (assigned st ! t))
        \<or> (fst (assigned st ! Suc t) = Suc (fst (assigned st ! t))
            \<and> (\<forall>j < snd (assigned st ! Suc t).
                  j \<in> snd ` set (take (Suc t) (assigned st)))))
    \<and> (\<forall>(k, i) \<in> set (assigned st).
          \<exists>j. (k, j) \<in> set (assigned st) \<and> [3, 4, 1, 5, 2 :: int] ! j = [1, 2, 3, 4, 5 :: int] ! i)
    \<and> (\<forall>(k, i) \<in> set (assigned st).
          child1 ! i = (if odd k then [1, 2, 3, 4, 5 :: int] ! i else [3, 4, 1, 5, 2 :: int] ! i)
        \<and> child2 ! i = (if odd k then [3, 4, 1, 5, 2 :: int] ! i else [1, 2, 3, 4, 5 :: int] ! i))
    \<and> (\<forall>i < length [1, 2, 3, 4, 5 :: int].
          child1 ! i = [1, 2, 3, 4, 5 :: int] ! i \<and> child2 ! i = [3, 4, 1, 5, 2 :: int] ! i
        \<or> child1 ! i = [3, 4, 1, 5, 2 :: int] ! i \<and> child2 ! i = [1, 2, 3, 4, 5 :: int] ! i)
    \<and> mset child1 = mset [1, 2, 3, 4, 5 :: int] \<and> mset child2 = mset [1, 2, 3, 4, 5 :: int])"
proof -
  have h: "distinct [1, 2, 3, 4, 5 :: int]" "mset [3, 4, 1, 5, 2 :: int] = mset [1, 2, 3, 4, 5 :: int]"
    by simp_all
  have e: "cycle_crossover [1, 2, 3, 4, 5 :: int] [3, 4, 1, 5, 2 :: int]
       = Inr \<lparr>c1_gen = map Some [1, 4, 3, 5, 2], c2_gen = map Some [3, 2, 1, 4, 5],
              visited_indices = [True, True, True, True, True],
              assigned = [(1, 0), (1, 2), (2, 1), (2, 4), (2, 3)]\<rparr>"
    by code_simp
  show ?thesis by (intro conjI h e C3_cycle_crossover [OF h])
qed

lemma CycleCrossover_call_pair:
  assumes "coin 0 \<le> resolve_rate rate_schedule current_generation"
    and "length (genotype ind1) = length (genotype ind2)"
  shows "CycleCrossover_call rate_schedule current_generation coin [ind1, ind2]
           = (case cycle_crossover (genotype ind1) (genotype ind2) of
                Inl e \<Rightarrow> Inl e
              | Inr st \<Rightarrow> Inr [Individual (c1_gen st), Individual (c2_gen st)])"
  using assms by (simp add: CycleCrossover_call_def split: sum.splits)

section \<open>Ordered crossover through \<open>__call__\<close>\<close>

text \<open>
  When a pair of permutation parents recombines, \<open>OrderedCrossover.__call__\<close> draws two
  distinct cut points in range and returns two children that are permutations of the
  parents' genes.
\<close>

lemma OrderedCrossover_call_pair:
  assumes par: "distinct (genotype ind1)" "mset (genotype ind2) = mset (genotype ind1)"
    and len: "2 \<le> length (genotype ind1)"
    and fire: "coin 0 \<le> resolve_rate rate_schedule current_generation"
  shows "\<exists>child1 child2.
           OrderedCrossover_call rate_schedule current_generation coin rnd [ind1, ind2]
             = Inr [Individual (map Some child1), Individual (map Some child2)]
         \<and> mset child1 = mset (genotype ind1) \<and> mset child2 = mset (genotype ind1)"
proof -
  let ?g1 = "genotype ind1" and ?g2 = "genotype ind2"
  let ?n = "length ?g1"
  have len2: "length ?g2 = ?n" using par(2) by (metis size_mset)
  have d2: "distinct ?g2" using par by (metis mset_eq_imp_distinct_iff)
  from random_sample_range_2 [OF len, of "rnd 0"] obtain i j where
    s: "random_sample [0..<?n] 2 (rnd 0) = Inr [i, j]" "i < ?n" "j < ?n" "i \<noteq> j"
    by blast
  let ?s = "min i j" and ?e = "max i j"
  have se: "?s \<le> ?e" "?e < ?n" using s(2,3) by simp_all
  from create_child_permutation [OF par se] obtain c1 where
    c1: "create_child ?g1 ?g2 ?s ?e = Inr (map Some c1)" "mset c1 = mset ?g1" by blast
  have se2: "?e < length ?g2" using se(2) len2 by simp
  from create_child_permutation [OF d2 par(2) [symmetric] se(1) se2] obtain c2 where
    c2: "create_child ?g2 ?g1 ?s ?e = Inr (map Some c2)" "mset c2 = mset ?g2" by blast
  have "OrderedCrossover_call rate_schedule current_generation coin rnd [ind1, ind2]
             = Inr [Individual (map Some c1), Individual (map Some c2)]"
    using len len2 fire s(1) c1(1) c2(1)
    by (simp add: OrderedCrossover_call_def Let_def)
  then show ?thesis using c1(2) c2(2) par(2) by auto
qed


end
